theory Spec2Isabelle
  imports Complex_Main "HOL-Library.Word"
begin

unbundle bit_operations_syntax

section \<open>Numbers\<close>

text \<open>
  The program computes with JavaScript numbers (IEEE-754 binary64) and stores samples in
  \<open>Float32Array\<close>s (binary32). A number is a real, an infinity or \<open>NaN\<close>; the two zeros
  are not told apart. Numeric arguments and the samples held in a buffer are finite.

  Rounding is modelled where a result depends on it outright:
  \<^item> in the generator \<open>SeededRandom\<close> the product \<open>seed * 1103515245\<close> needs up to 61 bits
    and is rounded to a 53-bit significand before \<open>&\<close> extracts its low bits;
  \<^item> the products \<open>Math.random() * 0x7fffffff\<close> of the generator,
    \<open>duration * sampleRate\<close> of \<open>generateNoise\<close> and \<open>fadeInSec * sampleRate\<close>,
    \<open>fadeOutSec * sampleRate\<close> of \<open>applyEnvelope\<close>, whose floors are a seed, the length of
    the buffer and the fade lengths, are binary64 products;
  \<^item> in \<open>applyEnvelope\<close> and \<open>mixAmbientLayers\<close> every quotient, product and sum is
    rounded to binary64 and every store into the \<open>Float32Array\<close> to binary32, with
    overflow to an infinity and underflow to subnormal numbers and 0.

  Elsewhere (the samples of the noise and layer synthesizers, the stereo gain, the chances
  and the lengths of the droplets, calls and bubbles of the layers) values are computed with
  exact real arithmetic: the relative rounding error of those operations is not part of the
  model, and what is stated of the layer synthesizers is the length of their buffers.
  Reading a typed array out of range gives \<open>undefined\<close>, which arithmetic turns into
  \<open>NaN\<close>. Seeds are integers, as the command line's \<open>parseInt\<close> supplies them.
\<close>

datatype number = Num real | PosInf | NegInf | NaN

subsection \<open>Rounding an integer to binary64\<close>

fun bit_length :: "nat \<Rightarrow> nat" where
  "bit_length n = (if n = 0 then 0 else Suc (bit_length (n div 2)))"

declare bit_length.simps [simp del]

text \<open>
  Round to nearest, ties to even, at 53 significant bits: an integer of at most 53 bits is
  kept, a longer one loses its \<open>k\<close> low bits.
\<close>

definition round_to_double :: "int \<Rightarrow> int" where
  "round_to_double n =
     (let m = nat \<bar>n\<bar>;
          k = bit_length m - 53;
          q = m div 2 ^ k;
          r = m mod 2 ^ k
      in sgn n * int ((if 2 ^ k < 2 * r \<or> (2 * r = 2 ^ k \<and> odd q) then q + 1 else q) * 2 ^ k))"

text \<open>\<open>x & 0x7fffffff\<close>: \<open>ToInt32\<close> of an integer-valued number, then the bitwise and.\<close>

definition and_0x7fffffff :: "int \<Rightarrow> int" where
  "and_0x7fffffff x = sint ((word_of_int x :: 32 word) AND 0x7fffffff)"

subsection \<open>Rounding a real to a binary format\<close>

text \<open>Round to the nearest integer, a tie to the even one.\<close>

definition round_even :: "real \<Rightarrow> int" where
  "round_even y =
     (let n = \<lfloor>y\<rfloor>; f = y - of_int n
      in if f < 1 / 2 then n else if 1 / 2 < f then n + 1 else if even n then n else n + 1)"

text \<open>
  The exponent \<open>e\<close> of a number \<open>x\<close> other than 0: \<open>2^e \<le> |x| < 2^(e + 1)\<close>. It is read off
  the number of bits of the integer part of \<open>|x|\<close>, or of \<open>1 / |x|\<close> when \<open>|x| < 1\<close>.
\<close>

definition exponent :: "real \<Rightarrow> int" where
  "exponent x =
     (if 1 \<le> \<bar>x\<bar> then int (bit_length (nat \<lfloor>\<bar>x\<bar>\<rfloor>)) - 1
      else (let k = int (bit_length (nat \<lfloor>1 / \<bar>x\<bar>\<rfloor>))
            in if \<bar>x\<bar> = 2 powi (1 - k) then 1 - k else - k))"

text \<open>
  \<open>round_to p emin x\<close> is the multiple of the quantum nearest to \<open>x\<close>, for a significand
  of \<open>p\<close> bits and least normal exponent \<open>emin\<close>: the quantum is \<open>2^(e - (p - 1))\<close> for the
  exponent \<open>e\<close> of \<open>x\<close>, and \<open>2^(emin - (p - 1))\<close> for the subnormal numbers below \<open>2^emin\<close>.
  A result of magnitude \<open>2^emax\<close> or more overflows to an infinity.
\<close>

definition round_to :: "nat \<Rightarrow> int \<Rightarrow> real \<Rightarrow> real" where
  "round_to p emin x =
     (if x = 0 then 0
      else (let q = max (exponent x) emin - (int p - 1)
            in of_int (round_even (x / 2 powi q)) * 2 powi q))"

definition to_format :: "nat \<Rightarrow> int \<Rightarrow> nat \<Rightarrow> real \<Rightarrow> number" where
  "to_format p emin emax x =
     (let y = round_to p emin x
      in if 2 ^ emax \<le> y then PosInf else if y \<le> - (2 ^ emax) then NegInf else Num y)"

definition binary64 :: "real \<Rightarrow> number" where
  "binary64 x = to_format 53 (- 1022) 1024 x"

definition binary32 :: "real \<Rightarrow> number" where
  "binary32 x = to_format 24 (- 126) 128 x"

text \<open>The conversion of a number to binary32 when it is stored into a \<open>Float32Array\<close>.\<close>

fun fround :: "number \<Rightarrow> number" where
  "fround (Num x) = binary32 x"
| "fround PosInf = PosInf"
| "fround NegInf = NegInf"
| "fround NaN = NaN"

subsection \<open>Arithmetic on numbers\<close>

text \<open>
  The operators \<open>*\<close>, \<open>/\<close> and \<open>+\<close> of the language: the exact result rounded to binary64,
  and the rules for infinities and \<open>NaN\<close>. A zero divisor is taken to be \<open>+0\<close>.
\<close>

definition inf_sign :: "real \<Rightarrow> number" where
  "inf_sign s = (if 0 < s then PosInf else if s < 0 then NegInf else NaN)"

fun sign_of :: "number \<Rightarrow> real" where
  "sign_of (Num x) = sgn x"
| "sign_of PosInf = 1"
| "sign_of NegInf = - 1"
| "sign_of NaN = 0"

fun times64 :: "number \<Rightarrow> number \<Rightarrow> number" where
  "times64 (Num x) (Num y) = binary64 (x * y)"
| "times64 NaN b = NaN"
| "times64 a NaN = NaN"
| "times64 a b = inf_sign (sign_of a * sign_of b)"

fun divide64 :: "number \<Rightarrow> number \<Rightarrow> number" where
  "divide64 (Num x) (Num y) = (if y = 0 then inf_sign x else binary64 (x / y))"
| "divide64 NaN b = NaN"
| "divide64 a NaN = NaN"
| "divide64 (Num x) b = Num 0"
| "divide64 a (Num y) = inf_sign (sign_of a * (if y < 0 then - 1 else 1))"
| "divide64 a b = NaN"

fun plus64 :: "number \<Rightarrow> number \<Rightarrow> number" where
  "plus64 (Num x) (Num y) = binary64 (x + y)"
| "plus64 NaN b = NaN"
| "plus64 a NaN = NaN"
| "plus64 PosInf NegInf = NaN"
| "plus64 NegInf PosInf = NaN"
| "plus64 PosInf b = PosInf"
| "plus64 a PosInf = PosInf"
| "plus64 NegInf b = NegInf"
| "plus64 a NegInf = NegInf"

fun num_neg :: "number \<Rightarrow> number" where
  "num_neg (Num x) = Num (- x)"
| "num_neg PosInf = NegInf"
| "num_neg NegInf = PosInf"
| "num_neg NaN = NaN"

fun Math_floor :: "number \<Rightarrow> number" where
  "Math_floor (Num x) = Num (of_int \<lfloor>x\<rfloor>)"
| "Math_floor PosInf = PosInf"
| "Math_floor NegInf = NegInf"
| "Math_floor NaN = NaN"

text \<open>
  \<open>x < n\<close>, \<open>n \<le> x\<close> and \<open>Math.abs(n) > x\<close> for a finite \<open>x\<close>: every comparison with
  \<open>NaN\<close> is false.
\<close>

fun num_gt :: "number \<Rightarrow> real \<Rightarrow> bool" where
  "num_gt (Num y) x = (x < y)"
| "num_gt PosInf x = True"
| "num_gt NegInf x = False"
| "num_gt NaN x = False"

fun num_le :: "number \<Rightarrow> real \<Rightarrow> bool" where
  "num_le (Num y) x = (y \<le> x)"
| "num_le PosInf x = False"
| "num_le NegInf x = True"
| "num_le NaN x = False"

fun abs_gt :: "number \<Rightarrow> real \<Rightarrow> bool" where
  "abs_gt (Num y) x = (x < \<bar>y\<bar>)"
| "abs_gt PosInf x = True"
| "abs_gt NegInf x = True"
| "abs_gt NaN x = False"

text \<open>
  \<open>m - n\<close> for an integer \<open>m\<close> below \<open>2^53\<close> and an integer or infinite \<open>n\<close>. The difference
  is only compared with an integer below \<open>2^53\<close>; it is exact, or at least \<open>2^53\<close> in
  magnitude and then its rounding to binary64 is so too, so the exact difference is used.
\<close>

fun num_minus :: "real \<Rightarrow> number \<Rightarrow> number" where
  "num_minus m (Num n) = Num (m - n)"
| "num_minus m PosInf = NegInf"
| "num_minus m NegInf = PosInf"
| "num_minus m NaN = NaN"

text \<open>
  \<open>Math.tanh\<close>. The language leaves its accuracy to the implementation; it is taken to
  return the binary64 number nearest to the hyperbolic tangent.
\<close>

fun Math_tanh :: "number \<Rightarrow> number" where
  "Math_tanh (Num x) = binary64 (tanh x)"
| "Math_tanh PosInf = Num 1"
| "Math_tanh NegInf = Num (- 1)"
| "Math_tanh NaN = NaN"

text \<open>Truncation towards zero (\<open>ToIntegerOrInfinity\<close> of a finite number).\<close>

definition trunc :: "real \<Rightarrow> int" where
  "trunc x = (if x < 0 then \<lceil>x\<rceil> else \<lfloor>x\<rfloor>)"

section \<open>The seeded generator (generateNoise.ts, ambientLayers.ts)\<close>

text \<open>
  \<open>constructor(seed?)\<close>: \<open>this.seed = seed ?? Math.floor(Math.random() * 0x7fffffff)\<close>.
  The value that \<open>Math.random()\<close> would return is the parameter \<open>entropy\<close>; it is below 1,
  so the binary64 product is finite.
\<close>

definition SeededRandom_new :: "real \<Rightarrow> int option \<Rightarrow> int" where
  "SeededRandom_new entropy seed =
     (case seed of Some s \<Rightarrow> s | None \<Rightarrow> \<lfloor>round_to 53 (- 1022) (entropy * 0x7fffffff)\<rfloor>)"

text \<open>
  \<open>random()\<close>: \<open>this.seed = (this.seed * 1103515245 + 12345) & 0x7fffffff;
  return this.seed / 0x7fffffff\<close>. The result is the new state and the returned number.
\<close>

definition SeededRandom_random :: "int \<Rightarrow> int \<times> real" where
  "SeededRandom_random seed =
     (let seed' = and_0x7fffffff (round_to_double (round_to_double (seed * 1103515245) + 12345))
      in (seed', real_of_int seed' / 0x7fffffff))"

text \<open>The generator as the specification words it, over exact integers.\<close>

definition lcg_next :: "int \<Rightarrow> int" where
  "lcg_next state = (state * 1103515245 + 12345) mod 2 ^ 31"

section \<open>Noise synthesis (generateNoise.ts)\<close>

text \<open>
  \<open>RangeError\<close> is what \<open>new Float32Array(n)\<close> throws for a length it refuses and what
  Node's \<open>Buffer.writeUInt..LE\<close> throw for a value outside the field; \<open>Error msg\<close> is
  \<open>throw new Error(msg)\<close>.
\<close>

datatype error = RangeError | Error string

text \<open>
  \<open>new Float32Array(n)\<close> for a number \<open>n\<close>. \<open>ToIndex\<close> truncates \<open>n\<close> (\<open>NaN\<close> becomes 0)
  and throws a \<open>RangeError\<close> outside \<open>0 .. 2^53 - 1\<close>; the allocation throws a \<open>RangeError\<close>
  for a length beyond what the engine allocates. That bound depends on the engine and its
  memory: it is the parameter \<open>limit\<close>. The new array holds zeros. This is the allocation
  of \<open>generateNoise\<close>, from a computed length; an allocation of the length of an existing
  buffer, or of twice that length, is taken to succeed.
\<close>

definition Float32Array_new :: "nat \<Rightarrow> number \<Rightarrow> error + real list" where
  "Float32Array_new limit n =
     (case n of
        Num x \<Rightarrow>
          (let k = trunc x
           in if k < 0 \<or> 2 ^ 53 - 1 < k \<or> int limit < k then Inl RangeError
              else Inr (replicate (nat k) 0))
      | PosInf \<Rightarrow> Inl RangeError
      | NegInf \<Rightarrow> Inl RangeError
      | NaN \<Rightarrow> Inr [])"

text \<open>
  The three loops \<open>for (let i = 0; i < length; i++)\<close>. The generator state is threaded
  through; the buffer is updated in place at index \<open>i\<close>.
\<close>

function white_loop :: "nat \<Rightarrow> nat \<Rightarrow> real list \<Rightarrow> int \<Rightarrow> real list" where
  "white_loop i len buffer rng =
     (if i < len then
        (let (rng', r) = SeededRandom_random rng
         in white_loop (i + 1) len (buffer[i := r * 2 - 1]) rng')
      else buffer)"
  by pat_completeness auto
termination
  by (relation "measure (\<lambda>(i, len, buffer, rng). len - i)") auto

declare white_loop.simps [simp del]

function brown_loop :: "nat \<Rightarrow> nat \<Rightarrow> real list \<Rightarrow> int \<Rightarrow> real \<Rightarrow> real list" where
  "brown_loop i len buffer rng lastOut =
     (if i < len then
        (let (rng', r) = SeededRandom_random rng;
             white = r * 2 - 1;
             lastOut' = max (- 1) (min 1 ((lastOut + (0.02 * white)) * 0.98))
         in brown_loop (i + 1) len (buffer[i := lastOut']) rng' lastOut')
      else buffer)"
  by pat_completeness auto
termination
  by (relation "measure (\<lambda>(i, len, buffer, rng, lastOut). len - i)") auto

declare brown_loop.simps [simp del]

record kellett =
  b0 :: real
  b1 :: real
  b2 :: real
  b3 :: real
  b4 :: real
  b5 :: real
  b6 :: real

function pink_loop :: "nat \<Rightarrow> nat \<Rightarrow> real list \<Rightarrow> int \<Rightarrow> kellett \<Rightarrow> real list" where
  "pink_loop i len buffer rng b =
     (if i < len then
        (let (rng', r) = SeededRandom_random rng;
             white = r * 2 - 1;
             b0' = 0.99886 * b0 b + white * 0.0555179;
             b1' = 0.99332 * b1 b + white * 0.0750759;
             b2' = 0.96900 * b2 b + white * 0.1538520;
             b3' = 0.86650 * b3 b + white * 0.3104856;
             b4' = 0.55000 * b4 b + white * 0.5329522;
             b5' = - 0.7616 * b5 b - white * 0.0168980;
             pink = b0' + b1' + b2' + b3' + b4' + b5' + b6 b + white * 0.5362;
             b6' = white * 0.115926
         in pink_loop (i + 1) len (buffer[i := pink * 0.11]) rng'
              \<lparr>b0 = b0', b1 = b1', b2 = b2', b3 = b3', b4 = b4', b5 = b5', b6 = b6'\<rparr>)
      else buffer)"
  by pat_completeness auto
termination
  by (relation "measure (\<lambda>(i, len, buffer, rng, b). len - i)") auto

declare pink_loop.simps [simp del]

text \<open>
  \<open>generateNoise(type, duration, sampleRate, seed?)\<close>. The buffer is allocated before the
  type is looked at, so a refused length fails first. When the allocation succeeds
  \<open>length\<close> is the length of the buffer (for \<open>NaN\<close> the buffer is empty and \<open>i < length\<close> is
  false), so the loops run up to \<open>len\<close>, the length of the buffer.
\<close>

definition generateNoise ::
  "nat \<Rightarrow> real \<Rightarrow> string \<Rightarrow> real \<Rightarrow> real \<Rightarrow> int option \<Rightarrow> error + real list" where
  "generateNoise limit entropy ty duration sampleRate seed =
     (case Float32Array_new limit (Math_floor (times64 (Num duration) (Num sampleRate))) of
        Inl e \<Rightarrow> Inl e
      | Inr buffer \<Rightarrow>
          (let len = length buffer;
               rng = SeededRandom_new entropy seed
           in if ty = ''white'' then Inr (white_loop 0 len buffer rng)
              else if ty = ''brown'' then Inr (brown_loop 0 len buffer rng 0)
              else if ty = ''pink'' then
                Inr (pink_loop 0 len buffer rng
                       \<lparr>b0 = 0, b1 = 0, b2 = 0, b3 = 0, b4 = 0, b5 = 0, b6 = 0\<rparr>)
              else Inl (Error (''Unknown noise type: '' @ ty))))"

subsection \<open>The pink-noise samples, index by index\<close>







section \<open>PCM conversion, envelope and stereo (wavWriter.ts)\<close>

text \<open>
  \<open>ToInt32\<close> is what \<open>&\<close> and \<open>>>\<close> apply to an operand: the number is truncated towards
  zero and reduced modulo \<open>2^32\<close>. A store into a \<open>Uint8Array\<close> keeps the low eight bits.
\<close>

definition ToInt32 :: "real \<Rightarrow> 32 word" where
  "ToInt32 x = word_of_int (trunc x)"

function float32ToPCM_loop :: "nat \<Rightarrow> real list \<Rightarrow> 8 word list \<Rightarrow> 8 word list" where
  "float32ToPCM_loop i buffer pcm =
     (if i < length buffer then
        (let sample = max (- 1) (min 1 (buffer ! i));
             int16 = (if sample < 0 then sample * 0x8000 else sample * 0x7FFF);
             pcm = pcm[i * 2 := ucast (ToInt32 int16 AND 0xFF)];
             pcm = pcm[i * 2 + 1 := ucast (signed_drop_bit 8 (ToInt32 int16) AND 0xFF)]
         in float32ToPCM_loop (i + 1) buffer pcm)
      else pcm)"
  by pat_completeness auto
termination
  by (relation "measure (\<lambda>(i, buffer, pcm). length buffer - i)") auto

declare float32ToPCM_loop.simps [simp del]

text \<open>\<open>float32ToPCM(buffer, channels = 1)\<close>; the body never reads \<open>channels\<close>.\<close>

definition float32ToPCM :: "real list \<Rightarrow> real \<Rightarrow> 8 word list" where
  "float32ToPCM buffer channels = float32ToPCM_loop 0 buffer (replicate (length buffer * 2) 0)"

text \<open>
  The conversion as the specification words it: the sample is clamped to \<open>[-1, 1]\<close>, scaled
  by 32768 if negative and by 32767 otherwise and truncated to an integer, which is written
  as a 16-bit two's complement number, low byte first. \<open>int16_le lo hi\<close> reads two such bytes
  back.
\<close>

definition pcm16 :: "real \<Rightarrow> int" where
  "pcm16 x = (let c = max (- 1) (min 1 x) in trunc (if c < 0 then c * 32768 else c * 32767))"

definition le16 :: "int \<Rightarrow> 8 word list" where
  "le16 v = [word_of_int (v mod 256), word_of_int (v div 256 mod 256)]"

definition int16_le :: "8 word \<Rightarrow> 8 word \<Rightarrow> int" where
  "int16_le lo hi = sint (word_cat hi lo :: 16 word)"

text \<open>
  \<open>applyEnvelope(buffer, fadeInSec, fadeOutSec, sampleRate)\<close>. The fade lengths are integers
  or infinities. \<open>buffer.length - i\<close> is exact.
\<close>

function applyEnvelope_loop ::
  "nat \<Rightarrow> real list \<Rightarrow> number \<Rightarrow> number \<Rightarrow> number list \<Rightarrow> number list" where
  "applyEnvelope_loop i buffer fadeInSamples fadeOutSamples result =
     (if i < length buffer then
        (let gain = Num 1;
             gain = (if num_gt fadeInSamples (real i)
                     then times64 gain (divide64 (Num (real i)) fadeInSamples) else gain);
             gain = (if num_le (num_minus (real (length buffer)) fadeOutSamples) (real i)
                     then (let fadeOutProgress =
                                 divide64 (Num (real (length buffer) - real i)) fadeOutSamples
                           in times64 gain fadeOutProgress)
                     else gain)
         in applyEnvelope_loop (i + 1) buffer fadeInSamples fadeOutSamples
              (result[i := fround (times64 (Num (buffer ! i)) gain)]))
      else result)"
  by pat_completeness auto
termination
  by (relation "measure (\<lambda>(i, buffer, fi, fo, result). length buffer - i)") auto

declare applyEnvelope_loop.simps [simp del]

definition applyEnvelope :: "real list \<Rightarrow> real \<Rightarrow> real \<Rightarrow> real \<Rightarrow> number list" where
  "applyEnvelope buffer fadeInSec fadeOutSec sampleRate =
     (let result = replicate (length buffer) (Num 0);
          fadeInSamples = Math_floor (times64 (Num fadeInSec) (Num sampleRate));
          fadeOutSamples = Math_floor (times64 (Num fadeOutSec) (Num sampleRate))
      in applyEnvelope_loop 0 buffer fadeInSamples fadeOutSamples result)"

text \<open>The gain that one iteration of the loop computes for index \<open>i\<close>.\<close>

definition envelope_gain :: "nat \<Rightarrow> number \<Rightarrow> number \<Rightarrow> nat \<Rightarrow> number" where
  "envelope_gain len fadeInSamples fadeOutSamples i =
     (let gain = Num 1;
          gain = (if num_gt fadeInSamples (real i)
                  then times64 gain (divide64 (Num (real i)) fadeInSamples) else gain)
      in if num_le (num_minus (real len) fadeOutSamples) (real i)
         then times64 gain (divide64 (Num (real len - real i)) fadeOutSamples)
         else gain)"




section \<open>The container (wavWriter.ts, writeWav)\<close>

text \<open>
  Node's \<open>Buffer\<close> writes. \<open>header.write(str, offset)\<close> stores the bytes of an ASCII
  string. \<open>writeUInt32LE(value, offset)\<close> and \<open>writeUInt16LE(value, offset)\<close> throw a
  \<open>RangeError\<close> when the value is outside the field's range and otherwise store
  \<open>value\<close>, \<open>value >>> 8\<close>, ... byte by byte. All offsets used lie inside the 44 bytes.
\<close>

fun store_bytes :: "8 word list \<Rightarrow> nat \<Rightarrow> 8 word list \<Rightarrow> 8 word list" where
  "store_bytes buf offset [] = buf"
| "store_bytes buf offset (x # xs) = store_bytes (buf[offset := x]) (Suc offset) xs"

fun le_bytes :: "nat \<Rightarrow> nat \<Rightarrow> 8 word list" where
  "le_bytes 0 v = []"
| "le_bytes (Suc k) v = of_nat v # le_bytes k (v div 256)"

definition ascii :: "string \<Rightarrow> 8 word list" where
  "ascii str = map (\<lambda>c. of_nat (of_char c)) str"

definition write_string :: "8 word list \<Rightarrow> string \<Rightarrow> nat \<Rightarrow> 8 word list" where
  "write_string buf str offset = store_bytes buf offset (ascii str)"

definition writeUInt32LE :: "8 word list \<Rightarrow> real \<Rightarrow> nat \<Rightarrow> error + 8 word list" where
  "writeUInt32LE buf v offset =
     (if v < 0 \<or> 4294967295 < v then Inl RangeError
      else Inr (store_bytes buf offset (le_bytes 4 (nat \<lfloor>v\<rfloor>))))"

definition writeUInt16LE :: "8 word list \<Rightarrow> real \<Rightarrow> nat \<Rightarrow> error + 8 word list" where
  "writeUInt16LE buf v offset =
     (if v < 0 \<or> 65535 < v then Inl RangeError
      else Inr (store_bytes buf offset (le_bytes 2 (nat \<lfloor>v\<rfloor>))))"

text \<open>Reading a little-endian unsigned field of \<open>n\<close> bytes at an offset of a byte sequence.\<close>

fun le_nat :: "8 word list \<Rightarrow> nat" where
  "le_nat [] = 0"
| "le_nat (b # bs) = unat b + 256 * le_nat bs"

definition field :: "8 word list \<Rightarrow> nat \<Rightarrow> nat \<Rightarrow> nat" where
  "field bytes offset n = le_nat (take n (drop offset bytes))"

text \<open>The statements of \<open>writeWav\<close> that fill the header, run in order up to the first throw.\<close>

datatype header_write = Write string nat | UInt32LE real nat | UInt16LE real nat

fun header_step :: "8 word list \<Rightarrow> header_write \<Rightarrow> error + 8 word list" where
  "header_step buf (Write str offset) = Inr (write_string buf str offset)"
| "header_step buf (UInt32LE v offset) = writeUInt32LE buf v offset"
| "header_step buf (UInt16LE v offset) = writeUInt16LE buf v offset"

fun header_steps :: "8 word list \<Rightarrow> header_write list \<Rightarrow> error + 8 word list" where
  "header_steps buf [] = Inr buf"
| "header_steps buf (w # ws) =
     (case header_step buf w of Inl e \<Rightarrow> Inl e | Inr buf' \<Rightarrow> header_steps buf' ws)"

text \<open>
  \<open>writeWav({data, sampleRate, outPath, channels = 1})\<close>. The result is the byte sequence handed
  to \<open>writeFileSync\<close>; the file system is outside the model.
\<close>

definition writeWav :: "real list \<Rightarrow> real \<Rightarrow> real \<Rightarrow> error + 8 word list" where
  "writeWav data sampleRate channels =
     (let pcmData = float32ToPCM data channels;
          header = replicate 44 0;
          totalLen = real (length pcmData) + 44;
          bytesPerSample = 2;
          blockAlign = channels * bytesPerSample;
          byteRate = sampleRate * blockAlign
      in case header_steps header
            [Write ''RIFF'' 0,
             UInt32LE (totalLen - 8) 4,
             Write ''WAVE'' 8,
             Write ''fmt '' 12,
             UInt32LE 16 16,
             UInt16LE 1 20,
             UInt16LE channels 22,
             UInt32LE sampleRate 24,
             UInt32LE byteRate 28,
             UInt16LE blockAlign 32,
             UInt16LE 16 34,
             Write ''data'' 36,
             UInt32LE (real (length pcmData)) 40]
         of Inl e \<Rightarrow> Inl e
          | Inr header \<Rightarrow> Inr (header @ pcmData))"

section \<open>Ambient layers (ambientLayers.ts)\<close>

text \<open>
  In the layer synthesizers a division by a zero sample rate gives an infinity or \<open>NaN\<close>,
  and a read past the end of a typed array gives \<open>undefined\<close>, which arithmetic turns into
  \<open>NaN\<close>. \<open>num_div\<close> and \<open>num_mul\<close> are the quotient and the product of the chance of an
  event, without rounding.
\<close>

definition num_div :: "real \<Rightarrow> real \<Rightarrow> number" where
  "num_div a b =
     (if b \<noteq> 0 then Num (a / b)
      else if 0 < a then PosInf else if a < 0 then NegInf else NaN)"

fun num_mul :: "number \<Rightarrow> real \<Rightarrow> number" where
  "num_mul (Num x) y = Num (x * y)"
| "num_mul PosInf y = (if 0 < y then PosInf else if y < 0 then NegInf else NaN)"
| "num_mul NegInf y = (if 0 < y then NegInf else if y < 0 then PosInf else NaN)"
| "num_mul NaN y = NaN"

text \<open>\<open>buffer[i]\<close> on a \<open>Float32Array\<close>, as a number.\<close>

definition read_sample :: "real list \<Rightarrow> nat \<Rightarrow> number" where
  "read_sample buf i = (if i < length buf then Num (buf ! i) else NaN)"

record LayerOptions =
  intensity :: real
  variation :: real
  seed :: "int option"

record AmbientLayerResult =
  name :: string
  buffer :: "real list"
  description :: string

text \<open>
  \<open>x.toFixed(2)\<close> for \<open>|x| < 10^21\<close>: the nearest multiple of \<open>1/100\<close>, the larger one on a
  tie, in decimal digits.
\<close>

definition digit_char :: "nat \<Rightarrow> char" where
  "digit_char d = char_of (48 + d)"

fun digits :: "nat \<Rightarrow> string" where
  "digits n = (if n < 10 then [digit_char n] else digits (n div 10) @ [digit_char (n mod 10)])"

declare digits.simps [simp del]

definition toFixed2 :: "real \<Rightarrow> string" where
  "toFixed2 x =
     (let n = nat \<lfloor>\<bar>x\<bar> * 100 + 1 / 2\<rfloor>
      in (if x < 0 then ''-'' else []) @ digits (n div 100) @ ''.'' @
         [digit_char (n div 10 mod 10), digit_char (n mod 10)])"

subsection \<open>Rain\<close>

text \<open>
  The droplet loop \<open>for (let j = 0; j < dropletSamples && (i + j) < buffer.length; j++)\<close>.
  It runs only for a positive \<open>dropletSamples = floor(0.01 * sampleRate)\<close>, so \<open>sampleRate\<close>
  is positive where it divides. The length of a typed array is fixed: it is the parameter
  \<open>len\<close> of every loop.
\<close>

function rain_droplet_loop ::
  "nat \<Rightarrow> nat \<Rightarrow> int \<Rightarrow> nat \<Rightarrow> real \<Rightarrow> real \<Rightarrow> real \<Rightarrow> LayerOptions \<Rightarrow> real list \<Rightarrow> int
     \<Rightarrow> real list \<times> int" where
  "rain_droplet_loop j i dropletSamples len sampleRate dropletIntensity frequency options buf rng =
     (if int j < dropletSamples \<and> i + j < len then
        (let dropletDuration = 0.01;
             t = real j / sampleRate;
             envelope = exp (- t * 150) * (1 - t / dropletDuration);
             oscillation = sin (2 * pi * frequency * t);
             (rng', r) = SeededRandom_random rng;
             noise = (r * 2 - 1) * 0.2;
             buf' = buf[i + j := buf ! (i + j) +
                      (oscillation * 0.8 + noise * 0.2) * envelope * dropletIntensity
                        * intensity options]
         in rain_droplet_loop (j + 1) i dropletSamples len sampleRate dropletIntensity
              frequency options buf' rng')
      else (buf, rng))"
  by pat_completeness auto
termination
  by (relation "measure (\<lambda>(j, i, dropletSamples, len, rest). len - (i + j))") auto

declare rain_droplet_loop.simps [simp del]

function rain_loop ::
  "nat \<Rightarrow> nat \<Rightarrow> real list \<Rightarrow> real \<Rightarrow> LayerOptions \<Rightarrow> real list \<Rightarrow> int \<Rightarrow> real list" where
  "rain_loop i len baseNoise sampleRate options buf rng =
     (if i < len then
        (let dropletRate = 20 + (intensity options * 80);
             dropletSamples = \<lfloor>0.01 * sampleRate\<rfloor>;
             noiseIntensity = \<bar>baseNoise ! i\<bar>;
             rainChance = num_mul (num_div dropletRate sampleRate)
                            (1 + noiseIntensity * variation options);
             (rng1, r1) = SeededRandom_random rng
         in if num_gt rainChance r1 then
              (let (rng2, r2) = SeededRandom_random rng1;
                   dropletIntensity = 0.1 + (r2 * 0.4);
                   (rng3, r3) = SeededRandom_random rng2;
                   frequency = 2000 + (r3 * 3000);
                   (buf', rng4) = rain_droplet_loop 0 i dropletSamples len sampleRate
                                    dropletIntensity frequency options buf rng3
               in rain_loop (i + 1) len baseNoise sampleRate options buf' rng4)
            else rain_loop (i + 1) len baseNoise sampleRate options buf rng1)
      else buf)"
  by pat_completeness auto
termination
  by (relation "measure (\<lambda>(i, len, rest). len - i)") auto

declare rain_loop.simps [simp del]

definition generateRainLayer :: "real \<Rightarrow> real list \<Rightarrow> real \<Rightarrow> LayerOptions \<Rightarrow> AmbientLayerResult" where
  "generateRainLayer entropy baseNoise sampleRate options =
     (let rng = SeededRandom_new entropy (seed options);
          buf = replicate (length baseNoise) 0
      in \<lparr>name = ''pacific_rain'',
          buffer = rain_loop 0 (length baseNoise) baseNoise sampleRate options buf rng,
          description = ''Pacific Northwest rain (intensity: '' @ toFixed2 (intensity options)
                          @ '')''\<rparr>)"

subsection \<open>Birds\<close>

function bird_call_loop ::
  "nat \<Rightarrow> nat \<Rightarrow> int \<Rightarrow> nat \<Rightarrow> real \<Rightarrow> real \<Rightarrow> real \<Rightarrow> real \<Rightarrow> LayerOptions \<Rightarrow> real list
     \<Rightarrow> real list" where
  "bird_call_loop j i callSamples len sampleRate frequency modulation callLength options buf =
     (if int j < callSamples \<and> i + j < len then
        (let callTime = real j / sampleRate;
             envelope = sin (pi * callTime / callLength);
             freq = frequency + sin (2 * pi * 3 * callTime) * modulation;
             signal = sin (2 * pi * freq * callTime);
             buf' = buf[i + j := buf ! (i + j) + signal * envelope * 0.3 * intensity options]
         in bird_call_loop (j + 1) i callSamples len sampleRate frequency modulation callLength
              options buf')
      else buf)"
  by pat_completeness auto
termination
  by (relation "measure (\<lambda>(j, i, callSamples, len, rest). len - (i + j))") auto

declare bird_call_loop.simps [simp del]

text \<open>
  One pass through the body of the outer loop, entered with \<open>i < buffer.length\<close>: the new
  values of \<open>i\<close>, the buffer and the generator. The index is an integer: \<open>i += callSamples\<close>
  moves it backwards when \<open>callSamples\<close> is negative, and for a negative \<open>i\<close> the read
  \<open>baseNoise[i]\<close> is \<open>undefined\<close>, so that \<open>callChance\<close> is \<open>NaN\<close>. The unused local
  \<open>t = i / sampleRate\<close> is left out.
\<close>

definition bird_body ::
  "int \<Rightarrow> nat \<Rightarrow> real list \<Rightarrow> real \<Rightarrow> LayerOptions \<Rightarrow> real list \<Rightarrow> int
     \<Rightarrow> int \<times> real list \<times> int" where
  "bird_body i len baseNoise sampleRate options buf rng =
     (let callRate = 0.5 + (intensity options * 2);
          callChance =
            (if i < 0 then NaN
             else num_mul (num_div callRate sampleRate)
                    (1 + \<bar>baseNoise ! nat i\<bar> * variation options * 2));
          (rng1, r1) = SeededRandom_random rng
      in if num_gt callChance r1 then
           (let (rng2, birdType) = SeededRandom_random rng1;
                (rng3, r3) = SeededRandom_random rng2;
                (frequency, modulation, callLength) =
                  (if birdType < 0.3 then (2000 + (r3 * 1000), 200, 0.3)
                   else if birdType < 0.6 then (400 + (r3 * 300), 50, 0.15)
                   else (1500 + (r3 * 2000), 400, 0.1));
                callSamples = \<lfloor>callLength * sampleRate\<rfloor>;
                buf' = bird_call_loop 0 (nat i) callSamples len sampleRate frequency modulation
                         callLength options buf
            in (i + callSamples, buf', rng3))
         else (i, buf, rng1))"

text \<open>
  The outer loop \<open>for (let i = 0; i < buffer.length; i++)\<close>. Its index can move backwards,
  so the loop need not end: \<open>None\<close> is a run that never returns.
\<close>

partial_function (option) bird_loop ::
  "int \<Rightarrow> nat \<Rightarrow> real list \<Rightarrow> real \<Rightarrow> LayerOptions \<Rightarrow> real list \<Rightarrow> int \<Rightarrow> real list option" where
  "bird_loop i len baseNoise sampleRate options buf rng =
     (if i < int len then
        (case bird_body i len baseNoise sampleRate options buf rng of
           (i', buf', rng') \<Rightarrow> bird_loop (i' + 1) len baseNoise sampleRate options buf' rng')
      else Some buf)"

text \<open>
  \<open>generateBirdLayer\<close>. The draw for the unused \<open>callDuration\<close> advances the generator
  before the loop.
\<close>

definition generateBirdLayer ::
  "real \<Rightarrow> real list \<Rightarrow> real \<Rightarrow> LayerOptions \<Rightarrow> AmbientLayerResult option" where
  "generateBirdLayer entropy baseNoise sampleRate options =
     (let rng = SeededRandom_new entropy (seed options);
          buf = replicate (length baseNoise) 0;
          (rng1, r1) = SeededRandom_random rng;
          callDuration = 0.2 + (r1 * 0.8)
      in case bird_loop 0 (length baseNoise) baseNoise sampleRate options buf rng1 of
           None \<Rightarrow> None
         | Some buf' \<Rightarrow>
             Some \<lparr>name = ''pacific_birds'', buffer = buf',
                   description = ''Pacific Northwest birds (intensity: ''
                                   @ toFixed2 (intensity options) @ '')''\<rparr>)"

subsection \<open>Water\<close>

function water_bubble_loop ::
  "nat \<Rightarrow> nat \<Rightarrow> int \<Rightarrow> nat \<Rightarrow> real \<Rightarrow> real \<Rightarrow> LayerOptions \<Rightarrow> real list \<Rightarrow> real list" where
  "water_bubble_loop j i bubbleSamples len sampleRate bubbleFreq options buf =
     (if int j < bubbleSamples \<and> i + j < len then
        (let bubbleTime = real j / sampleRate;
             bubbleEnv = exp (- bubbleTime * 10);
             bubbleSound = sin (2 * pi * bubbleFreq * bubbleTime);
             buf' = buf[i + j := buf ! (i + j) + bubbleSound * bubbleEnv * 0.2 * intensity options]
         in water_bubble_loop (j + 1) i bubbleSamples len sampleRate bubbleFreq options buf')
      else buf)"
  by pat_completeness auto
termination
  by (relation "measure (\<lambda>(j, i, bubbleSamples, len, rest). len - (i + j))") auto

declare water_bubble_loop.simps [simp del]

function water_loop ::
  "nat \<Rightarrow> nat \<Rightarrow> real list \<Rightarrow> real \<Rightarrow> LayerOptions \<Rightarrow> real list \<Rightarrow> int \<Rightarrow> real \<Rightarrow> real list" where
  "water_loop i len baseNoise sampleRate options buf rng filterState =
     (if i < len then
        (let baseFlow = 0.3;
             bubbleRate = 5 + (intensity options * 15);
             noiseLevel = \<bar>baseNoise ! i\<bar>;
             (rng1, r1) = SeededRandom_random rng;
             rawNoise = r1 * 2 - 1;
             filterState' = filterState * 0.95 + rawNoise * 0.05;
             flowIntensity = baseFlow + (noiseLevel * variation options * 0.5);
             buf1 = buf[i := filterState' * flowIntensity * intensity options * 0.4];
             bubbleChance = num_div bubbleRate sampleRate;
             (rng2, r2) = SeededRandom_random rng1
         in if num_gt bubbleChance r2 then
              (let (rng3, r3) = SeededRandom_random rng2;
                   bubbleFreq = 800 + (r3 * 1200);
                   (rng4, r4) = SeededRandom_random rng3;
                   bubbleDuration = 0.05 + (r4 * 0.1);
                   bubbleSamples = \<lfloor>bubbleDuration * sampleRate\<rfloor>;
                   buf2 = water_bubble_loop 0 i bubbleSamples len sampleRate bubbleFreq options buf1
               in water_loop (i + 1) len baseNoise sampleRate options buf2 rng4 filterState')
            else water_loop (i + 1) len baseNoise sampleRate options buf1 rng2 filterState')
      else buf)"
  by pat_completeness auto
termination
  by (relation "measure (\<lambda>(i, len, rest). len - i)") auto

declare water_loop.simps [simp del]

definition generateWaterLayer :: "real \<Rightarrow> real list \<Rightarrow> real \<Rightarrow> LayerOptions \<Rightarrow> AmbientLayerResult" where
  "generateWaterLayer entropy baseNoise sampleRate options =
     (let rng = SeededRandom_new entropy (seed options);
          buf = replicate (length baseNoise) 0
      in \<lparr>name = ''running_water'',
          buffer = water_loop 0 (length baseNoise) baseNoise sampleRate options buf rng 0,
          description = ''Running water (intensity: '' @ toFixed2 (intensity options) @ '')''\<rparr>)"

subsection \<open>Mixing\<close>

text \<open>
  \<open>mixAmbientLayers(baseNoise, layers, baseLevel, layerLevel)\<close>. The buffer \<open>mixed\<close> is a
  \<open>Float32Array\<close>: every store rounds to binary32, and what the next statement reads is the
  rounded sample. \<open>layer.buffer[i]\<close> is read for every \<open>i < mixed.length\<close>, also past the end
  of a shorter layer buffer.
\<close>

function mix_base_loop :: "nat \<Rightarrow> real list \<Rightarrow> real \<Rightarrow> number list \<Rightarrow> number list" where
  "mix_base_loop i baseNoise baseLevel mixed =
     (if i < length baseNoise then
        mix_base_loop (i + 1) baseNoise baseLevel
          (mixed[i := fround (times64 (Num (baseNoise ! i)) (Num baseLevel))])
      else mixed)"
  by pat_completeness auto
termination
  by (relation "measure (\<lambda>(i, baseNoise, rest). length baseNoise - i)") auto

declare mix_base_loop.simps [simp del]

function mix_layer_loop ::
  "nat \<Rightarrow> nat \<Rightarrow> AmbientLayerResult \<Rightarrow> number \<Rightarrow> number list \<Rightarrow> number list" where
  "mix_layer_loop i len layer layerWeight mixed =
     (if i < len then
        mix_layer_loop (i + 1) len layer layerWeight
          (mixed[i := fround (plus64 (mixed ! i)
                                (times64 (read_sample (buffer layer) i) layerWeight))])
      else mixed)"
  by pat_completeness auto
termination
  by (relation "measure (\<lambda>(i, len, rest). len - i)") auto

declare mix_layer_loop.simps [simp del]

text \<open>
  The limiter:
  \<open>if (Math.abs(mixed[i]) > 0.95) mixed[i] = mixed[i] > 0 ? Math.tanh(mixed[i]) : -Math.tanh(-mixed[i])\<close>.
  The literal \<open>0.95\<close> is the binary64 number nearest to 0.95,
  \<open>4278419646001971 / 2^52\<close>; \<open>mixed[i]\<close> is a binary32 number and none of these lies
  between the two (lemma \<open>binary32_threshold\<close>), so the comparison is the one with 0.95.
\<close>

definition soft_limit :: "number \<Rightarrow> number" where
  "soft_limit m =
     (if abs_gt m 0.95
      then (if num_gt m 0 then fround (Math_tanh m) else fround (num_neg (Math_tanh (num_neg m))))
      else m)"

function limit_loop :: "nat \<Rightarrow> nat \<Rightarrow> number list \<Rightarrow> number list" where
  "limit_loop i len mixed =
     (if i < len then limit_loop (i + 1) len (mixed[i := soft_limit (mixed ! i)]) else mixed)"
  by pat_completeness auto
termination
  by (relation "measure (\<lambda>(i, len, mixed). len - i)") auto

declare limit_loop.simps [simp del]

text \<open>The buffer \<open>mixed\<close> when the limiter loop starts.\<close>

definition mix_sum :: "real list \<Rightarrow> AmbientLayerResult list \<Rightarrow> real \<Rightarrow> real \<Rightarrow> number list" where
  "mix_sum baseNoise layers baseLevel layerLevel =
     (let mixed = replicate (length baseNoise) (Num 0);
          mixed = mix_base_loop 0 baseNoise baseLevel mixed
      in foldl (\<lambda>mixed layer.
                  (let layerWeight = divide64 (Num layerLevel) (Num (real (length layers)))
                   in mix_layer_loop 0 (length baseNoise) layer layerWeight mixed))
           mixed layers)"

definition mixAmbientLayers ::
  "real list \<Rightarrow> AmbientLayerResult list \<Rightarrow> real \<Rightarrow> real \<Rightarrow> number list" where
  "mixAmbientLayers baseNoise layers baseLevel layerLevel =
     limit_loop 0 (length baseNoise) (mix_sum baseNoise layers baseLevel layerLevel)"

text \<open>
  The limiter as the specification words it: \<open>sign(x) * tanh(|x|)\<close> for a magnitude above
  0.95, the sample itself otherwise. \<open>limited\<close> is that value as the buffer holds it: computed
  in binary64 and stored as binary32.
\<close>

definition tanh_limit :: "real \<Rightarrow> real" where
  "tanh_limit x = (if 0.95 < \<bar>x\<bar> then sgn x * tanh \<bar>x\<bar> else x)"

fun limited :: "number \<Rightarrow> number" where
  "limited (Num x) = (if 0.95 < \<bar>x\<bar> then fround (binary64 (tanh_limit x)) else Num x)"
| "limited PosInf = Num 1"
| "limited NegInf = Num (- 1)"
| "limited NaN = NaN"

section \<open>Properties of the generator\<close>

lemma bit_length_0: "bit_length 0 = 0"
  by (simp add: bit_length.simps)

lemma bit_length_pos: "0 < n \<Longrightarrow> bit_length n = Suc (bit_length (n div 2))"
  by (subst bit_length.simps) simp

lemma and_0x7fffffff_mod: "and_0x7fffffff x = x mod 2 ^ 31"
proof -
  have m: "(0x7fffffff :: 32 word) = mask 31"
    by (simp add: mask_eq_exp_minus_1)
  have "sint (take_bit 31 (word_of_int x :: 32 word)) = take_bit 31 x"
    by (simp add: sint_uint unsigned_take_bit_eq uint_word_of_int_eq signed_take_bit_take_bit)
  then show ?thesis
    unfolding and_0x7fffffff_def m
    by (simp add: take_bit_eq_mask take_bit_eq_mod flip: take_bit_eq_mask)
qed

lemma random_1: "SeededRandom_random 1 = (1103527590, 1103527590 / 2147483647)"
  by (simp add: SeededRandom_random_def round_to_double_def bit_length_0 bit_length_pos
      and_0x7fffffff_mod)

lemma random_42: "SeededRandom_random 42 = (1250496027, 1250496027 / 2147483647)"
  by (simp add: SeededRandom_random_def round_to_double_def bit_length_0 bit_length_pos
      and_0x7fffffff_mod)

lemma round_product: "round_to_double (1250496027 * 1103515245) = 1379941429606431488"
  by (simp add: round_to_double_def bit_length_0 bit_length_pos)

lemma round_sum: "round_to_double (1379941429606431488 + 12345) = 1379941429606443776"
  by (simp add: round_to_double_def bit_length_0 bit_length_pos)

lemma bit_length_le: "n < 2 ^ k \<Longrightarrow> bit_length n \<le> k"
proof (induction k arbitrary: n)
  case 0
  then show ?case by (simp add: bit_length_0)
next
  case (Suc k)
  show ?case
  proof (cases "n = 0")
    case True
    then show ?thesis by (simp add: bit_length_0)
  next
    case False
    have "n div 2 < 2 ^ k" using Suc.prems by simp
    from Suc.IH [OF this] False show ?thesis by (simp add: bit_length_pos)
  qed
qed

lemma round_to_double_exact: "\<bar>n\<bar> < 2 ^ 53 \<Longrightarrow> round_to_double n = n"
proof -
  assume a: "\<bar>n\<bar> < 2 ^ 53"
  then have "nat \<bar>n\<bar> < 2 ^ 53" by simp
  then have "bit_length (nat \<bar>n\<bar>) - 53 = 0" using bit_length_le by simp
  then show ?thesis
    by (simp add: round_to_double_def Let_def sgn_if)
qed

lemma bit_length_lower: "0 < n \<Longrightarrow> 2 ^ (bit_length n - 1) \<le> n"
proof (induction n rule: less_induct)
  case (less n)
  show ?case
  proof (cases "n div 2 = 0")
    case True
    then have "n = 1" using less.prems by (simp add: div_eq_0_iff) 
    then show ?thesis by (simp add: bit_length_pos bit_length_0)
  next
    case False
    then have h: "0 < n div 2" "n div 2 < n" using less.prems by simp_all
    from less.IH [OF h(2) h(1)] have "2 ^ (bit_length (n div 2) - 1) \<le> n div 2" .
    moreover have "0 < bit_length (n div 2)" using h(1) by (simp add: bit_length_pos)
    ultimately have "2 ^ bit_length (n div 2) \<le> 2 * (n div 2)"
      by (cases "bit_length (n div 2)") simp_all
    then show ?thesis using less.prems by (simp add: bit_length_pos)
  qed
qed

lemma bit_length_upper: "n < 2 ^ bit_length n"
proof (induction n rule: less_induct)
  case (less n)
  show ?case
  proof (cases "n = 0")
    case True
    then show ?thesis by simp
  next
    case False
    then have "n div 2 < n" by simp
    from less.IH [OF this] have "n div 2 < 2 ^ bit_length (n div 2)" .
    then have "n < 2 * 2 ^ bit_length (n div 2)" by linarith
    then show ?thesis using False by (simp add: bit_length_pos)
  qed
qed

lemma bit_length_gt: "2 ^ k \<le> n \<Longrightarrow> k < bit_length n"
proof -
  assume "2 ^ k \<le> n"
  then have "(2::nat) ^ k < 2 ^ bit_length n"
    using bit_length_upper [of n] by linarith
  then show ?thesis by simp
qed

text \<open>An integer of more than 53 bits rounds to an even integer of more than 53 bits.\<close>

lemma round_to_double_large:
  assumes "2 ^ 53 \<le> \<bar>n\<bar>"
  shows "even (round_to_double n) \<and> 2 ^ 53 \<le> \<bar>round_to_double n\<bar>"
proof -
  define m where "m = nat \<bar>n\<bar>"
  define k where "k = bit_length m - 53"
  define q where "q = m div 2 ^ k"
  define q' where "q' = (if 2 ^ k < 2 * (m mod 2 ^ k) \<or> (2 * (m mod 2 ^ k) = 2 ^ k \<and> odd q)
    then q + 1 else q)"
  have m: "2 ^ 53 \<le> m" using assms by (simp add: m_def le_nat_iff)
  then have bl: "53 < bit_length m" by (rule bit_length_gt)
  then have k: "0 < k" "bit_length m - 1 = 52 + k" by (simp_all add: k_def)
  have "0 < m" using m by (metis gr0I not_less_eq_eq power_not_zero zero_neq_numeral le_zero_eq)
  then have "2 ^ (52 + k) \<le> m" using bit_length_lower [of m] k(2) by simp
  then have "2 ^ (52 + k) div 2 ^ k \<le> q" unfolding q_def by (rule div_le_mono)
  then have q: "2 ^ 52 \<le> q" by (simp add: power_add)
  then have q': "2 ^ 52 \<le> q'" by (simp add: q'_def)
  have r: "round_to_double n = sgn n * int (q' * 2 ^ k)"
    by (simp add: round_to_double_def Let_def m_def [symmetric] k_def [symmetric]
        q_def [symmetric] q'_def)
  have "even (q' * 2 ^ k)" using k(1) by simp
  then have e: "even (round_to_double n)" unfolding r by simp
  have "(2::nat) ^ 1 \<le> 2 ^ k"
    using k(1) by (intro power_increasing) simp_all
  then have "2 ^ 52 * 2 ^ 1 \<le> q' * 2 ^ k"
    using q' by (intro mult_mono) simp_all
  then have "(2::nat) ^ 53 \<le> q' * 2 ^ k" by simp
  then have "(2::int) ^ 53 \<le> int (q' * 2 ^ k)" by (metis of_nat_le_iff of_nat_numeral of_nat_power)
  moreover have "n \<noteq> 0" using assms by auto
  ultimately have "2 ^ 53 \<le> \<bar>round_to_double n\<bar>"
    unfolding r by (simp add: abs_mult abs_sgn_eq)
  with e show ?thesis by simp
qed

text \<open>
  No exact state maps to \<open>2^31 - 1\<close>: that needs \<open>s = 230538014\<close> modulo \<open>2^31\<close>, which is
  too large for an exact product.
\<close>

lemma lcg_not_all_ones:
  assumes "\<bar>s :: int\<bar> \<le> 8162278"
  shows "(s * 1103515245 + 12345) mod 2 ^ 31 \<noteq> 2 ^ 31 - 1"
proof
  define x where "x = s * 1103515245 + 12345"
  define j where "j = x div 2147483648 + 1"
  define z where "z = 1857678181 * j - 954594553 * s - 10679"
  assume "(s * 1103515245 + 12345) mod 2 ^ 31 = 2 ^ 31 - 1"
  then have "x mod 2147483648 = 2147483647"
    by (simp add: x_def)
  then have "x + 1 = 2147483648 * j"
    using mult_div_mod_eq [of 2147483648 x] by (simp add: j_def)
  then have "s * 1103515245 = 2147483648 * j - 12346"
    by (simp add: x_def)
  then have "s + 1916945634 = 2147483648 * z"
    by (simp add: z_def)
  moreover have "0 < s + 1916945634" "s + 1916945634 < 2147483648"
    using assms by simp_all
  ultimately have "0 < 2147483648 * z" "2147483648 * z < 2147483648"
    by simp_all
  then have "0 < z" "z < 1"
    by (simp_all add: zero_less_mult_iff)
  then show False by simp
qed

lemma SeededRandom_random_not_all_ones: "fst (SeededRandom_random s) \<noteq> 2 ^ 31 - 1"
proof
  define p where "p = round_to_double (s * 1103515245)"
  define y where "y = round_to_double (p + 12345)"
  assume "fst (SeededRandom_random s) = 2 ^ 31 - 1"
  then have t: "y mod 2 ^ 31 = 2 ^ 31 - 1"
    by (simp add: SeededRandom_random_def Let_def and_0x7fffffff_mod y_def p_def)
  then have "odd (y mod 2 ^ 31)" by simp
  then have odd: "odd y"
    using dvd_mod_iff [of 2 "2 ^ 31" y] by simp
  have small: "\<bar>p + 12345\<bar> < 2 ^ 53"
  proof (rule ccontr)
    assume "\<not> \<bar>p + 12345\<bar> < 2 ^ 53"
    then have "even y" unfolding y_def using round_to_double_large [of "p + 12345"] by simp
    with odd show False by simp
  qed
  then have y: "y = p + 12345" unfolding y_def by (rule round_to_double_exact)
  show False
  proof (cases "\<bar>s * 1103515245\<bar> < 2 ^ 53")
    case True
    then have "p = s * 1103515245" unfolding p_def by (rule round_to_double_exact)
    moreover have "\<bar>s\<bar> \<le> 8162278"
    proof (rule ccontr)
      assume "\<not> \<bar>s\<bar> \<le> 8162278"
      then have "8162279 \<le> \<bar>s\<bar>" by simp
      then have "8162279 * 1103515245 \<le> \<bar>s\<bar> * 1103515245" by simp
      then show False using True by (simp add: abs_mult)
    qed
    ultimately show False using lcg_not_all_ones [of s] t y by simp
  next
    case False
    then have "2 ^ 53 \<le> \<bar>p\<bar>"
      unfolding p_def using round_to_double_large [of "s * 1103515245"] by simp
    then have "p \<le> - (2 ^ 53)" using small by linarith
    then have r: "0 < y + 2 ^ 53" "y + 2 ^ 53 \<le> 12345" using small y by linarith+
    have "y mod 2 ^ 31 = (y + 2 ^ 22 * 2 ^ 31) mod 2 ^ 31"
      by (simp only: mod_mult_self1 mod_mult_self2)
    also have "\<dots> = y + 2 ^ 53" using r by simp
    finally show False using t r by simp
  qed
qed

text \<open>
  While product and sum fit 53 bits, \<open>random()\<close> steps the state by the exact recurrence.
\<close>

lemma SeededRandom_random_exact:
  assumes "\<bar>s\<bar> \<le> 8162278"
  shows "fst (SeededRandom_random s) = lcg_next s"
proof -
  have "\<bar>s * 1103515245\<bar> = \<bar>s\<bar> * 1103515245"
    by (simp add: abs_mult)
  with assms have p: "\<bar>s * 1103515245\<bar> \<le> 8162278 * 1103515245"
    by simp
  then have "\<bar>s * 1103515245\<bar> < 2 ^ 53"
    by simp
  then have r1: "round_to_double (s * 1103515245) = s * 1103515245"
    by (rule round_to_double_exact)
  from p have "\<bar>s * 1103515245 + 12345\<bar> < 2 ^ 53"
    by simp
  then have r2: "round_to_double (s * 1103515245 + 12345) = s * 1103515245 + 12345"
    by (rule round_to_double_exact)
  show ?thesis
    by (simp add: SeededRandom_random_def Let_def r1 r2 and_0x7fffffff_mod lcg_next_def)
qed

text \<open>The number returned by \<open>random()\<close> is in \<open>[0, 1)\<close>.\<close>

lemma SeededRandom_random_range:
  "0 \<le> fst (SeededRandom_random s) \<and> fst (SeededRandom_random s) < 2 ^ 31 - 1 \<and>
   snd (SeededRandom_random s) = real_of_int (fst (SeededRandom_random s)) / (2 ^ 31 - 1) \<and>
   0 \<le> snd (SeededRandom_random s) \<and> snd (SeededRandom_random s) < 1"
proof -
  define t where "t = fst (SeededRandom_random s)"
  have "0 \<le> t" "t < 2 ^ 31"
    by (simp_all add: t_def SeededRandom_random_def Let_def and_0x7fffffff_mod)
  moreover have "t \<noteq> 2 ^ 31 - 1"
    unfolding t_def by (rule SeededRandom_random_not_all_ones)
  ultimately have t: "0 \<le> t" "t < 2147483647" by simp_all
  have s: "snd (SeededRandom_random s) = real_of_int t / 2147483647"
    by (simp add: t_def SeededRandom_random_def Let_def)
  have "real_of_int t < 2147483647" using t(2) by simp
  then show ?thesis using t s unfolding t_def [symmetric] by simp
qed

text \<open>
  C2. The specification asks for the state update \<open>(state * 1103515245 + 12345) mod 2^31\<close>
  over exact integers. The code computes the product in binary64. From seed 42 the first
  draw is exact and gives the state 1250496027; for the second draw the exact product
  1379941429606431615 is rounded to 1379941429606431488 and the sum to
  1379941429606443776, so the state becomes 1116302080 where the exact recurrence gives
  1116302264.
\<close>

theorem SeededRandom_random_rounds:
  "SeededRandom_random 42 = (1250496027, 1250496027 / 2147483647)
   \<and> lcg_next 42 = 1250496027
   \<and> SeededRandom_random 1250496027 = (1116302080, 1116302080 / 2147483647)
   \<and> lcg_next 1250496027 = 1116302264"
proof -
  have "SeededRandom_random 1250496027 = (1116302080, 1116302080 / 2147483647)"
    unfolding SeededRandom_random_def round_product round_sum
    by (simp add: and_0x7fffffff_mod)
  then show ?thesis
    by (simp add: random_42 lcg_next_def)
qed

section \<open>Properties of rounding\<close>

lemma round_even_of_int: "round_even (of_int k) = k"
  by (simp add: round_even_def)

lemma round_even_le: "y \<le> of_int m \<Longrightarrow> round_even y \<le> m"
proof -
  assume a: "y \<le> of_int m"
  show ?thesis
  proof (cases "y = of_int m")
    case True
    then show ?thesis by (simp add: round_even_of_int)
  next
    case False
    with a have "y < of_int m" by simp
    then have "\<lfloor>y\<rfloor> < m" by (simp add: floor_less_iff)
    then show ?thesis by (simp add: round_even_def Let_def)
  qed
qed

lemma round_even_ge: "of_int m \<le> y \<Longrightarrow> m \<le> round_even y"
proof -
  assume "of_int m \<le> y"
  then have "m \<le> \<lfloor>y\<rfloor>" by (simp add: le_floor_iff)
  then show ?thesis by (simp add: round_even_def Let_def)
qed

lemma round_even_minus: "round_even (- y) = - round_even y"
proof (cases "y = of_int \<lfloor>y\<rfloor>")
  case True
  then obtain k where "y = of_int k" ..
  then show ?thesis by (simp add: round_even_of_int flip: of_int_minus)
next
  case False
  have c: "\<lceil>y\<rceil> = \<lfloor>y\<rfloor> + 1" using False by (simp add: ceiling_altdef)
  have f: "\<lfloor>- y\<rfloor> = - \<lfloor>y\<rfloor> - 1" using c by (simp add: ceiling_def)
  show ?thesis
    unfolding round_even_def Let_def f
    by (auto simp add: algebra_simps)
qed

lemma powi_le2: "(2::real) powi a \<le> 2 powi b \<longleftrightarrow> a \<le> b"
proof
  assume "(2::real) powi a \<le> 2 powi b"
  show "a \<le> b"
  proof (rule ccontr)
    assume "\<not> a \<le> b"
    then have "b < a" by simp
    then have "(2::real) powi b < 2 powi a" by (intro power_int_strict_increasing) simp_all
    with \<open>(2::real) powi a \<le> 2 powi b\<close> show False by simp
  qed
next
  assume "a \<le> b"
  then show "(2::real) powi a \<le> 2 powi b" by (intro power_int_increasing) simp_all
qed

lemma powi_less2: "(2::real) powi a < 2 powi b \<longleftrightarrow> a < b"
  using powi_le2 [of b a] by (simp add: not_le [symmetric])

lemma bit_length_nonzero: "0 < n \<Longrightarrow> 0 < bit_length n"
  by (simp add: bit_length_pos)

text \<open>The integer part of a number of at least 1 gives its exponent.\<close>

lemma bit_length_floor:
  fixes y :: real
  assumes "1 \<le> y"
  shows "2 ^ (bit_length (nat \<lfloor>y\<rfloor>) - 1) \<le> y" and "y < 2 ^ bit_length (nat \<lfloor>y\<rfloor>)"
    and "0 < bit_length (nat \<lfloor>y\<rfloor>)"
proof -
  define m where "m = nat \<lfloor>y\<rfloor>"
  have "1 \<le> \<lfloor>y\<rfloor>" using assms by simp
  then have m: "0 < m" "real m = of_int \<lfloor>y\<rfloor>" by (simp_all add: m_def)
  show "0 < bit_length m" using m(1) by (rule bit_length_nonzero)
  have "2 ^ (bit_length m - 1) \<le> m" using m(1) by (rule bit_length_lower)
  then have "(2::real) ^ (bit_length m - 1) \<le> real m"
    by (metis of_nat_le_iff of_nat_numeral of_nat_power)
  also have "\<dots> \<le> y" by (simp add: m(2))
  finally show "2 ^ (bit_length m - 1) \<le> y" .
  have "m < 2 ^ bit_length m" by (rule bit_length_upper)
  then have "m + 1 \<le> 2 ^ bit_length m" by simp
  then have "real (m + 1) \<le> 2 ^ bit_length m"
    by (metis of_nat_le_iff of_nat_numeral of_nat_power)
  moreover have "y < real (m + 1)" by (simp add: m(2)) linarith
  ultimately show "y < 2 ^ bit_length m" by linarith
qed

lemma exponent_bounds:
  assumes "x \<noteq> 0"
  shows "2 powi exponent x \<le> \<bar>x\<bar>" "\<bar>x\<bar> < 2 powi (exponent x + 1)"
proof -
  have "2 powi exponent x \<le> \<bar>x\<bar> \<and> \<bar>x\<bar> < 2 powi (exponent x + 1)"
  proof (cases "1 \<le> \<bar>x\<bar>")
    case True
    define k where "k = bit_length (nat \<lfloor>\<bar>x\<bar>\<rfloor>)"
    have k: "2 ^ (k - 1) \<le> \<bar>x\<bar>" "\<bar>x\<bar> < 2 ^ k" "0 < k"
      unfolding k_def using True by (rule bit_length_floor)+
    have e: "exponent x = int k - 1" using True by (simp add: exponent_def k_def)
    have "int k - 1 = int (k - 1)" using k(3) by simp
    then have "(2::real) powi (int k - 1) = 2 ^ (k - 1)" by (simp only: power_int_of_nat)
    moreover have "(2::real) powi (int k - 1 + 1) = 2 ^ k" by simp
    ultimately show ?thesis using k(1,2) by (simp only: e)
  next
    case False
    define y where "y = 1 / \<bar>x\<bar>"
    have xp: "0 < \<bar>x\<bar>" "\<bar>x\<bar> < 1" using assms False by simp_all
    then have y1: "1 \<le> y" by (simp add: y_def)
    define k where "k = bit_length (nat \<lfloor>y\<rfloor>)"
    have k: "2 ^ (k - 1) \<le> y" "y < 2 ^ k" "0 < k"
      unfolding k_def using y1 by (rule bit_length_floor)+
    have x: "\<bar>x\<bar> = 1 / y" using xp by (simp add: y_def)
    have yp: "0 < y" using y1 by linarith
    have lo: "1 / 2 ^ k < \<bar>x\<bar>"
      unfolding x using k(2) yp by (simp add: field_simps)
    have hi: "\<bar>x\<bar> \<le> 1 / 2 ^ (k - 1)"
      unfolding x using k(1) yp by (simp add: field_simps)
    have p1: "(2::real) powi (- int k) = 1 / 2 ^ k"
      by (simp add: power_int_minus field_simps)
    have "1 - int k = - int (k - 1)" using k(3) by simp
    then have p2: "(2::real) powi (1 - int k) = 1 / 2 ^ (k - 1)"
      by (simp only: power_int_minus power_int_of_nat) (simp add: field_simps)
    have "(2::real) powi (1 - int k + 1) = 2 powi (1 - int k) * 2 powi 1"
      by (rule power_int_add) simp
    then have p3: "(2::real) powi (1 - int k + 1) = 2 * (1 / 2 ^ (k - 1))"
      by (simp only: p2) simp
    have p4: "- int k + 1 = 1 - int k" by simp
    have e: "exponent x = (if \<bar>x\<bar> = 2 powi (1 - int k) then 1 - int k else - int k)"
      using False by (simp add: exponent_def Let_def k_def y_def)
    show ?thesis
    proof (cases "\<bar>x\<bar> = 2 powi (1 - int k)")
      case True
      then have e': "exponent x = 1 - int k" by (simp add: e)
      have a: "2 powi (1 - int k) \<le> \<bar>x\<bar>" using True by simp
      have x2: "\<bar>x\<bar> = 1 / 2 ^ (k - 1)" using True by (simp only: p2)
      have "\<bar>x\<bar> < 2 * \<bar>x\<bar>" using xp(1) by simp
      also have "2 * \<bar>x\<bar> = 2 powi (1 - int k + 1)" by (simp only: p3 x2)
      finally have b: "\<bar>x\<bar> < 2 powi (1 - int k + 1)" .
      show ?thesis unfolding e' using a b by (rule conjI)
    next
      case False
      then have e': "exponent x = - int k" by (simp add: e)
      have a: "2 powi (- int k) \<le> \<bar>x\<bar>" unfolding p1 using lo by simp
      have "\<bar>x\<bar> \<noteq> 1 / 2 ^ (k - 1)" using False unfolding p2 .
      with hi have "\<bar>x\<bar> < 1 / 2 ^ (k - 1)" by simp
      then have b: "\<bar>x\<bar> < 2 powi (- int k + 1)" by (simp only: p4 p2)
      show ?thesis unfolding e' using a b by (rule conjI)
    qed
  qed
  then show "2 powi exponent x \<le> \<bar>x\<bar>" "\<bar>x\<bar> < 2 powi (exponent x + 1)" by simp_all
qed

text \<open>The exponent is determined by the binade.\<close>

lemma exponent_unique:
  assumes "2 powi e \<le> \<bar>x\<bar>" "\<bar>x\<bar> < 2 powi (e + 1)"
  shows "exponent x = e"
proof -
  have nz: "x \<noteq> 0"
  proof
    assume "x = 0"
    with assms(1) have "(2::real) powi e \<le> 0" by simp
    moreover have "0 < (2::real) powi e" by (rule zero_less_power_int) simp
    ultimately show False by linarith
  qed
  from exponent_bounds [OF nz] assms
  have "(2::real) powi exponent x < 2 powi (e + 1)" "(2::real) powi e < 2 powi (exponent x + 1)"
    by linarith+
  then show ?thesis by (simp add: powi_less2)
qed

lemma powi_nat_diff: "q \<le> j \<Longrightarrow> (2::real) powi j / 2 powi q = of_int (2 ^ nat (j - q))"
proof -
  assume "q \<le> j"
  have "(2::real) powi j / 2 powi q = 2 powi (j - q)"
    by (simp add: power_int_diff)
  also have "\<dots> = 2 powi (int (nat (j - q)))" using \<open>q \<le> j\<close> by simp
  also have "\<dots> = of_int (2 ^ nat (j - q))" by (simp only: power_int_of_nat) simp
  finally show ?thesis .
qed

lemma round_to_exact:
  assumes "x = of_int n * 2 powi j" "\<bar>n\<bar> < 2 ^ p" "emin - (int p - 1) \<le> j"
  shows "round_to p emin x = x"
proof (cases "x = 0")
  case True
  then show ?thesis by (simp add: round_to_def)
next
  case False
  define e where "e = exponent x"
  define q where "q = max e emin - (int p - 1)"
  have "\<bar>x\<bar> = of_int \<bar>n\<bar> * 2 powi j" by (simp add: assms(1) abs_mult)
  also have "\<dots> < 2 ^ p * 2 powi j"
  proof -
    have "real_of_int \<bar>n\<bar> < 2 ^ p" using assms(2) by (metis of_int_less_iff of_int_numeral of_int_power)
    then show ?thesis by simp
  qed
  also have "\<dots> = 2 powi (int p + j)" by (simp add: power_int_add)
  finally have "\<bar>x\<bar> < 2 powi (int p + j)" .
  moreover have "2 powi e \<le> \<bar>x\<bar>" unfolding e_def by (rule exponent_bounds) fact
  ultimately have "(2::real) powi e < 2 powi (int p + j)" by linarith
  then have "e < int p + j" by (simp add: powi_less2)
  then have qj: "q \<le> j" using assms(3) by (simp add: q_def)
  have "x / 2 powi q = of_int n * (2 powi j / 2 powi q)" by (simp add: assms(1))
  also have "\<dots> = of_int (n * 2 ^ nat (j - q))" by (simp only: powi_nat_diff [OF qj]) simp
  finally have "of_int (round_even (x / 2 powi q)) * 2 powi q = x / 2 powi q * 2 powi q"
    by (simp only: round_even_of_int)
  also have "\<dots> = x" by simp
  finally show ?thesis using False by (simp add: round_to_def Let_def e_def q_def)
qed

lemma round_to_of_int: "\<bar>n\<bar> < 2 ^ p \<Longrightarrow> emin \<le> int p - 1 \<Longrightarrow> round_to p emin (of_int n) = of_int n"
  using round_to_exact [of "of_int n" n 0 p emin] by simp

lemma round_to_bounded:
  assumes "\<bar>x\<bar> \<le> 2 powi k" "emin - (int p - 1) \<le> k" "0 < p"
  shows "\<bar>round_to p emin x\<bar> \<le> 2 powi k"
proof (cases "x = 0")
  case True
  then show ?thesis by (simp add: round_to_def)
next
  case False
  define e where "e = exponent x"
  define q where "q = max e emin - (int p - 1)"
  have "2 powi e \<le> \<bar>x\<bar>" unfolding e_def by (rule exponent_bounds) fact
  with assms(1) have "(2::real) powi e \<le> 2 powi k" by linarith
  then have "e \<le> k" by (simp add: powi_le2)
  then have qk: "q \<le> k" using assms(2,3) by (simp add: q_def)
  define N :: int where "N = 2 ^ nat (k - q)"
  have N: "(2::real) powi k / 2 powi q = of_int N" unfolding N_def by (rule powi_nat_diff) fact
  have pos: "0 < (2::real) powi q" by simp
  have "\<bar>x / 2 powi q\<bar> = \<bar>x\<bar> / 2 powi q"
    by (simp add: abs_divide)
  also have "\<dots> \<le> 2 powi k / 2 powi q"
    using assms(1) pos by (simp add: divide_right_mono)
  finally have ab: "\<bar>x / 2 powi q\<bar> \<le> of_int N"
    unfolding N .
  have b: "x / 2 powi q \<le> of_int N" "of_int (- N) \<le> x / 2 powi q"
    using abs_le_D1 [OF ab] abs_le_D2 [OF ab] by simp_all
  have "round_even (x / 2 powi q) \<le> N" "- N \<le> round_even (x / 2 powi q)"
    using round_even_le [OF b(1)] round_even_ge [OF b(2)] by simp_all
  then have "\<bar>real_of_int (round_even (x / 2 powi q))\<bar> \<le> of_int N"
    by (simp add: abs_le_iff)
  then have "\<bar>real_of_int (round_even (x / 2 powi q)) * 2 powi q\<bar> \<le> of_int N * 2 powi q"
    using pos by (simp add: abs_mult)
  also have "real_of_int N * 2 powi q = 2 powi k" using N by (simp add: field_simps)
  finally show ?thesis using False by (simp add: round_to_def Let_def e_def q_def)
qed

lemma exponent_minus: "exponent (- x) = exponent x"
  by (simp add: exponent_def)

lemma round_to_minus: "round_to p emin (- x) = - round_to p emin x"
  by (simp add: round_to_def Let_def round_even_minus exponent_minus flip: minus_divide_left)

lemma round_to_nonneg: "0 \<le> x \<Longrightarrow> 0 \<le> round_to p emin x"
proof -
  assume "0 \<le> x"
  then have "of_int 0 \<le> x / 2 powi q" for q by simp
  from round_even_ge [OF this] show ?thesis
    by (simp add: round_to_def Let_def)
qed

lemma round_to_nonpos: "x \<le> 0 \<Longrightarrow> round_to p emin x \<le> 0"
  using round_to_nonneg [of "- x" p emin] by (simp add: round_to_minus)

lemma round_to_lower_pos:
  assumes "2 powi k \<le> x" "emin - (int p - 1) \<le> k" "0 < p"
  shows "2 powi k \<le> round_to p emin x"
proof -
  have kpos: "0 < (2::real) powi k" by (rule zero_less_power_int) simp
  with assms(1) have xpos: "0 < x" by linarith
  then have ax: "\<bar>x\<bar> = x" by simp
  define e where "e = exponent x"
  define q where "q = max e emin - (int p - 1)"
  define j where "j = (if emin \<le> e then e else k)"
  have e: "2 powi e \<le> x" "x < 2 powi (e + 1)"
    using exponent_bounds [of x] xpos by (simp_all add: e_def)
  with assms(1) have "(2::real) powi k < 2 powi (e + 1)" by linarith
  then have ke: "k \<le> e" by (simp add: powi_less2)
  have j: "2 powi j \<le> x" "q \<le> j" "k \<le> j"
    using e(1) assms ke by (auto simp add: j_def q_def)
  define N :: int where "N = 2 ^ nat (j - q)"
  have N: "(2::real) powi j / 2 powi q = of_int N" unfolding N_def by (rule powi_nat_diff) fact
  have pos: "0 < (2::real) powi q" by (rule zero_less_power_int) simp
  have "of_int N \<le> x / 2 powi q"
    unfolding N [symmetric] using j(1) pos by (simp add: divide_right_mono)
  then have "N \<le> round_even (x / 2 powi q)" by (rule round_even_ge)
  then have "real_of_int N * 2 powi q \<le> real_of_int (round_even (x / 2 powi q)) * 2 powi q"
    using pos by simp
  moreover have "real_of_int N * 2 powi q = 2 powi j" using N by (simp add: field_simps)
  moreover have "(2::real) powi k \<le> 2 powi j" using j(3) by (simp add: powi_le2)
  ultimately have "2 powi k \<le> real_of_int (round_even (x / 2 powi q)) * 2 powi q"
    by linarith
  moreover have "round_to p emin x = real_of_int (round_even (x / 2 powi q)) * 2 powi q"
    using xpos by (simp add: round_to_def Let_def e_def q_def)
  ultimately show ?thesis by simp
qed

lemma round_to_lower:
  assumes "2 powi k \<le> \<bar>x\<bar>" "emin - (int p - 1) \<le> k" "0 < p"
  shows "2 powi k \<le> \<bar>round_to p emin x\<bar>"
proof (cases "0 \<le> x")
  case True
  with assms have "2 powi k \<le> round_to p emin x" by (intro round_to_lower_pos) simp_all
  then show ?thesis by linarith
next
  case False
  with assms have "2 powi k \<le> round_to p emin (- x)" by (intro round_to_lower_pos) simp_all
  then show ?thesis by (simp add: round_to_minus)
qed

lemma round_to_idem:
  assumes "0 < p"
  shows "round_to p emin (round_to p emin x) = round_to p emin x"
proof (cases "x = 0")
  case True
  then show ?thesis by (simp add: round_to_def)
next
  case False
  define e where "e = exponent x"
  define q where "q = max e emin - (int p - 1)"
  define k where "k = round_even (x / 2 powi q)"
  have y: "round_to p emin x = of_int k * 2 powi q"
    using False by (simp add: round_to_def Let_def e_def q_def k_def)
  have pos: "0 < (2::real) powi q" by (rule zero_less_power_int) simp
  have q: "emin - (int p - 1) \<le> q" "e + 1 - int p \<le> q" by (simp_all add: q_def)
  have "\<bar>x\<bar> < 2 powi (e + 1)" unfolding e_def by (rule exponent_bounds) fact
  also have "\<dots> \<le> 2 powi (int p + q)" using q(2) by (simp add: powi_le2)
  also have "\<dots> = (2::real) ^ p * 2 powi q" by (simp add: power_int_add)
  finally have "\<bar>x\<bar> / 2 powi q < 2 ^ p" using pos by (simp add: field_simps)
  then have ab: "\<bar>x / 2 powi q\<bar> \<le> of_int (2 ^ p)" by (simp add: abs_divide)
  have "x / 2 powi q \<le> of_int (2 ^ p)" "of_int (- (2 ^ p)) \<le> x / 2 powi q"
    using abs_le_D1 [OF ab] abs_le_D2 [OF ab] by simp_all
  then have kb: "k \<le> 2 ^ p" "- (2 ^ p) \<le> k"
    unfolding k_def using round_even_le round_even_ge by blast+
  have one: "\<bar>1 :: int\<bar> < 2 ^ p" "\<bar>- 1 :: int\<bar> < 2 ^ p"
    using assms by (simp_all add: one_less_power)
  consider "\<bar>k\<bar> < 2 ^ p" | "k = 2 ^ p" | "k = - (2 ^ p)" using kb by linarith
  then have "round_to p emin (real_of_int k * 2 powi q) = real_of_int k * 2 powi q"
  proof cases
    case 1
    then show ?thesis using q(1) by (intro round_to_exact [of _ k q]) simp_all
  next
    case 2
    have "real_of_int k * 2 powi q = of_int 1 * 2 powi (int p + q)"
      by (simp add: 2 power_int_add)
    then show ?thesis
      using q(1) one(1) by (intro round_to_exact [of _ 1 "int p + q"]) simp_all
  next
    case 3
    have "real_of_int k * 2 powi q = of_int (- 1) * 2 powi (int p + q)"
      by (simp add: 3 power_int_add)
    then show ?thesis
      using q(1) one(2) by (intro round_to_exact [of _ "- 1" "int p + q"]) simp_all
  qed
  then show ?thesis by (simp only: y)
qed

text \<open>Evaluating a rounding when the binade is known.\<close>

lemma round_to_eval:
  assumes "2 powi e \<le> \<bar>x\<bar>" "\<bar>x\<bar> < 2 powi (e + 1)"
  shows "round_to p emin x =
     of_int (round_even (x / 2 powi (max e emin - (int p - 1)))) * 2 powi (max e emin - (int p - 1))"
proof -
  have "exponent x = e" using assms by (rule exponent_unique)
  moreover have "x \<noteq> 0"
  proof
    assume "x = 0"
    with assms(1) have "(2::real) powi e \<le> 0" by simp
    moreover have "0 < (2::real) powi e" by (rule zero_less_power_int) simp
    ultimately show False by linarith
  qed
  ultimately show ?thesis by (simp add: round_to_def Let_def)
qed

lemma to_format_Num:
  assumes "\<bar>x\<bar> \<le> 2 powi k" "emin - (int p - 1) \<le> k" "0 < p" "k < int emax"
  shows "to_format p emin emax x = Num (round_to p emin x)" "\<bar>round_to p emin x\<bar> \<le> 2 powi k"
proof -
  show b: "\<bar>round_to p emin x\<bar> \<le> 2 powi k" using assms(1-3) by (rule round_to_bounded)
  have "(2::real) powi k < 2 powi (int emax)"
    using assms(4) by (intro power_int_strict_increasing) simp_all
  also have "\<dots> = 2 ^ emax" by (rule power_int_of_nat)
  finally have "(2::real) powi k < 2 ^ emax" .
  with b have "\<bar>round_to p emin x\<bar> < 2 ^ emax" by linarith
  then show "to_format p emin emax x = Num (round_to p emin x)"
    by (simp add: to_format_def Let_def abs_less_iff not_le)
qed

lemma to_format_exact:
  assumes "x = of_int n * 2 powi j" "\<bar>n\<bar> < 2 ^ p" "emin - (int p - 1) \<le> j" "\<bar>x\<bar> < 2 ^ emax"
  shows "to_format p emin emax x = Num x"
  using assms(4) round_to_exact [OF assms(1-3)]
  by (simp add: to_format_def Let_def abs_less_iff not_le)

lemma to_format_not_NaN: "to_format p emin emax x \<noteq> NaN"
  by (simp add: to_format_def Let_def)

lemma binary64_of_int: "\<bar>n\<bar> < 2 ^ 53 \<Longrightarrow> binary64 (of_int n) = Num (of_int n)"
proof -
  assume a: "\<bar>n\<bar> < 2 ^ 53"
  have "(2::int) ^ 53 < 2 ^ 1024" by simp
  with a have "\<bar>n\<bar> < 2 ^ 1024" by linarith
  then have "\<bar>real_of_int n\<bar> < 2 ^ 1024"
    by (metis of_int_abs of_int_less_iff of_int_numeral of_int_power)
  then show ?thesis
    unfolding binary64_def using a by (intro to_format_exact [of _ n 0]) simp_all
qed

lemma binary32_of_int: "\<bar>n\<bar> < 2 ^ 24 \<Longrightarrow> binary32 (of_int n) = Num (of_int n)"
proof -
  assume a: "\<bar>n\<bar> < 2 ^ 24"
  have "(2::int) ^ 24 < 2 ^ 128" by simp
  with a have "\<bar>n\<bar> < 2 ^ 128" by linarith
  then have "\<bar>real_of_int n\<bar> < 2 ^ 128"
    by (metis of_int_abs of_int_less_iff of_int_numeral of_int_power)
  then show ?thesis
    unfolding binary32_def using a by (intro to_format_exact [of _ n 0]) simp_all
qed

lemma binary64_numeral [simp]:
  "numeral v < (2::int) ^ 53 \<Longrightarrow> binary64 (numeral v) = Num (numeral v)"
  "numeral v < (2::int) ^ 53 \<Longrightarrow> binary64 (- numeral v) = Num (- numeral v)"
  "binary64 0 = Num 0" "binary64 1 = Num 1" "binary64 (- 1) = Num (- 1)"
  using binary64_of_int [of "numeral v"] binary64_of_int [of "- numeral v"]
    binary64_of_int [of 0] binary64_of_int [of 1] binary64_of_int [of "- 1"]
  by simp_all

lemma binary32_numeral [simp]:
  "numeral v < (2::int) ^ 24 \<Longrightarrow> binary32 (numeral v) = Num (numeral v)"
  "numeral v < (2::int) ^ 24 \<Longrightarrow> binary32 (- numeral v) = Num (- numeral v)"
  "binary32 0 = Num 0" "binary32 1 = Num 1" "binary32 (- 1) = Num (- 1)"
  using binary32_of_int [of "numeral v"] binary32_of_int [of "- numeral v"]
    binary32_of_int [of 0] binary32_of_int [of 1] binary32_of_int [of "- 1"]
  by simp_all

lemma binary64_not_NaN [simp]: "binary64 x \<noteq> NaN"
  by (simp add: binary64_def to_format_not_NaN)

lemma binary32_not_NaN [simp]: "binary32 x \<noteq> NaN"
  by (simp add: binary32_def to_format_not_NaN)

lemma fround_not_NaN: "m \<noteq> NaN \<Longrightarrow> fround m \<noteq> NaN"
  by (cases m) simp_all

lemma to_format_NumD:
  assumes "to_format p emin emax x = Num y"
  shows "y = round_to p emin x" and "\<bar>y\<bar> < 2 ^ emax"
    and "0 \<le> x \<Longrightarrow> 0 \<le> y" and "x \<le> 0 \<Longrightarrow> y \<le> 0"
proof -
  from assms show y: "y = round_to p emin x" and "\<bar>y\<bar> < 2 ^ emax"
    by (auto simp add: to_format_def Let_def split: if_splits)
  show "0 \<le> x \<Longrightarrow> 0 \<le> y" unfolding y by (rule round_to_nonneg)
  show "x \<le> 0 \<Longrightarrow> y \<le> 0" unfolding y by (rule round_to_nonpos)
qed

lemma to_format_nonneg: "0 \<le> x \<Longrightarrow> to_format p emin emax x \<noteq> NegInf"
proof -
  assume "0 \<le> x"
  then have "0 \<le> round_to p emin x" by (rule round_to_nonneg)
  moreover have "- (2 ^ emax) < (0 :: real)" by simp
  ultimately show ?thesis by (simp add: to_format_def Let_def)
qed

lemma to_format_idem:
  assumes "to_format p emin emax x = Num y" "0 < p"
  shows "to_format p emin emax y = Num y"
proof -
  have y: "y = round_to p emin x" and b: "\<bar>y\<bar> < 2 ^ emax"
    using assms(1) by (rule to_format_NumD)+
  have "round_to p emin y = y" unfolding y using assms(2) by (rule round_to_idem)
  then show ?thesis using b by (simp add: to_format_def Let_def abs_less_iff not_le)
qed

lemma to_format_lower:
  assumes "2 powi k \<le> \<bar>x\<bar>" "emin - (int p - 1) \<le> k" "0 < p"
  shows "to_format p emin emax x \<noteq> Num 0"
    and "to_format p emin emax x = Num y \<Longrightarrow> 2 powi k \<le> \<bar>y\<bar>"
proof -
  have pos: "0 < (2::real) powi k" by (rule zero_less_power_int) simp
  have l: "2 powi k \<le> \<bar>round_to p emin x\<bar>" using assms by (rule round_to_lower)
  show y: "2 powi k \<le> \<bar>y\<bar>" if "to_format p emin emax x = Num y" for y
    using l to_format_NumD(1) [OF that] by simp
  show "to_format p emin emax x \<noteq> Num 0"
  proof
    assume "to_format p emin emax x = Num 0"
    from y [OF this] pos show False by simp
  qed
qed

text \<open>A number of magnitude at most 1 rounds to a finite number of magnitude at most 1.\<close>

lemma binary64_le_1:
  assumes "\<bar>x\<bar> \<le> 1"
  shows "binary64 x = Num (round_to 53 (- 1022) x)" and "\<bar>round_to 53 (- 1022) x\<bar> \<le> 1"
  using to_format_Num [of x 0 "- 1022" 53 1024] assms by (simp_all add: binary64_def)

lemma binary32_le_1:
  assumes "\<bar>x\<bar> \<le> 1"
  shows "binary32 x = Num (round_to 24 (- 126) x)" and "\<bar>round_to 24 (- 126) x\<bar> \<le> 1"
  using to_format_Num [of x 0 "- 126" 24 128] assms by (simp_all add: binary32_def)

lemma binary64_idem: "binary64 x = Num y \<Longrightarrow> binary64 y = Num y"
  unfolding binary64_def by (rule to_format_idem) simp_all

text \<open>A product of at least the least positive binary32 number is not stored as 0.\<close>

lemma stored_nonzero:
  assumes "1 / 2 ^ 149 \<le> \<bar>x\<bar>"
  shows "fround (binary64 x) \<noteq> Num 0"
proof -
  have e: "(1 / 2 ^ 149 :: real) = 2 powi (- 149)"
    by (simp add: power_int_minus field_simps)
  have x: "2 powi (- 149) \<le> \<bar>x\<bar>" using assms by (simp only: e)
  show ?thesis
  proof (cases "binary64 x")
    case (Num y)
    then have "2 powi (- 149) \<le> \<bar>y\<bar>"
      unfolding binary64_def using x
      by (intro to_format_lower(2) [of "- 149" x "- 1022" 53 1024 y]) simp_all
    then have "binary32 y \<noteq> Num 0"
      unfolding binary32_def by (intro to_format_lower(1) [of "- 149" y "- 126" 24 128]) simp_all
    then show ?thesis by (simp add: Num)
  qed simp_all
qed

lemma binary64_2_53: "binary64 9007199254740992 = Num 9007199254740992"
  unfolding binary64_def by (rule to_format_exact [of _ 1 53]) simp_all

lemma binary64_dyadic:
  "\<bar>n\<bar> < 2 ^ 53 \<Longrightarrow> k \<le> 1074 \<Longrightarrow> binary64 (of_int n / 2 ^ k) = Num (of_int n / 2 ^ k)"
proof -
  assume a: "\<bar>n\<bar> < 2 ^ 53" "k \<le> 1074"
  have "(2::int) ^ 53 < 2 ^ 1024" by simp
  with a have "\<bar>n\<bar> < 2 ^ 1024" by linarith
  then have "\<bar>real_of_int n\<bar> < 2 ^ 1024"
    by (metis of_int_abs of_int_less_iff of_int_numeral of_int_power)
  moreover have "\<bar>real_of_int n / 2 ^ k\<bar> \<le> \<bar>real_of_int n\<bar>"
  proof -
    have "1 \<le> (2::real) ^ k" by simp
    then have "\<bar>real_of_int n\<bar> * 1 \<le> \<bar>real_of_int n\<bar> * 2 ^ k"
      by (intro mult_left_mono) simp_all
    then show ?thesis by (simp add: abs_divide field_simps)
  qed
  ultimately have "\<bar>real_of_int n / 2 ^ k\<bar> < 2 ^ 1024" by linarith
  moreover have "real_of_int n / 2 ^ k = of_int n * 2 powi (- int k)"
    by (simp add: power_int_minus field_simps)
  ultimately show ?thesis
    unfolding binary64_def using a by (intro to_format_exact [of _ n "- int k"]) simp_all
qed

lemma binary32_dyadic:
  "\<bar>n\<bar> < 2 ^ 24 \<Longrightarrow> k \<le> 149 \<Longrightarrow> binary32 (of_int n / 2 ^ k) = Num (of_int n / 2 ^ k)"
proof -
  assume a: "\<bar>n\<bar> < 2 ^ 24" "k \<le> 149"
  have "(2::int) ^ 24 < 2 ^ 128" by simp
  with a have "\<bar>n\<bar> < 2 ^ 128" by linarith
  then have "\<bar>real_of_int n\<bar> < 2 ^ 128"
    by (metis of_int_abs of_int_less_iff of_int_numeral of_int_power)
  moreover have "\<bar>real_of_int n / 2 ^ k\<bar> \<le> \<bar>real_of_int n\<bar>"
  proof -
    have "1 \<le> (2::real) ^ k" by simp
    then have "\<bar>real_of_int n\<bar> * 1 \<le> \<bar>real_of_int n\<bar> * 2 ^ k"
      by (intro mult_left_mono) simp_all
    then show ?thesis by (simp add: abs_divide field_simps)
  qed
  ultimately have "\<bar>real_of_int n / 2 ^ k\<bar> < 2 ^ 128" by linarith
  moreover have "real_of_int n / 2 ^ k = of_int n * 2 powi (- int k)"
    by (simp add: power_int_minus field_simps)
  ultimately show ?thesis
    unfolding binary32_def using a by (intro to_format_exact [of _ n "- int k"]) simp_all
qed

text \<open>
  The binary64 number nearest to 0.3 is \<open>5404319552844595 / 2^54\<close>. Its exact product with
  10 is below 3; the binary64 product is 3.
\<close>

lemma binary64_product_rounds_up:
  "binary64 (5404319552844595 / 2 ^ 54 * 10) = Num 3 \<and> (5404319552844595 / 2 ^ 54 * 10 :: real) < 3"
proof -
  let ?x = "5404319552844595 / 2 ^ 54 * 10 :: real"
  have "round_to 53 (- 1022) ?x = 3"
    by (subst round_to_eval [of 1]) (simp_all add: round_even_def)
  then show ?thesis by (simp add: binary64_def to_format_def)
qed

text \<open>A quarter of the least positive binary32 number, \<open>2^-149\<close>, is stored as 0.\<close>

lemma binary32_underflow: "binary32 (1 / 2 ^ 151) = Num 0"
proof -
  have x: "(1 / 2 ^ 151 :: real) = 2 powi (- 151)"
    by (simp add: power_int_minus field_simps)
  have "round_to 24 (- 126) (2 powi (- 151)) = 0"
    by (subst round_to_eval [of "- 151"]) (simp_all add: round_even_def power_int_minus powi_less2)
  then show ?thesis by (simp add: binary32_def to_format_def x)
qed

text \<open>
  No binary32 number lies between the binary64 number nearest to 0.95 and 0.95 itself.
\<close>

lemma binary32_threshold:
  assumes "binary32 x = Num y"
  shows "4278419646001971 / 4503599627370496 < \<bar>y\<bar> \<longleftrightarrow> 0.95 < \<bar>y\<bar>"
proof
  assume "0.95 < \<bar>y\<bar>"
  then show "4278419646001971 / 4503599627370496 < \<bar>y\<bar>" by simp
next
  assume c: "4278419646001971 / 4503599627370496 < \<bar>y\<bar>"
  show "0.95 < \<bar>y\<bar>"
  proof (rule ccontr)
    assume "\<not> 0.95 < \<bar>y\<bar>"
    then have u: "\<bar>y\<bar> \<le> 0.95" by simp
    have y: "y = round_to 24 (- 126) x"
      using assms unfolding binary32_def by (rule to_format_NumD)
    have nz: "x \<noteq> 0"
    proof
      assume "x = 0"
      then have "y = 0" by (simp add: y round_to_def)
      with c show False by simp
    qed
    define e where "e = exponent x"
    define q where "q = max e (- 126) - (int 24 - 1)"
    define k where "k = round_even (x / 2 powi q)"
    have yk: "y = of_int k * 2 powi q"
      using nz by (simp add: y round_to_def Let_def e_def q_def k_def)
    have e: "- 2 \<le> e"
    proof (rule ccontr)
      assume "\<not> - 2 \<le> e"
      then have "e + 1 \<le> - 2" by simp
      then have "(2::real) powi (e + 1) \<le> 2 powi (- 2)"
        by (intro power_int_increasing) simp_all
      moreover have "\<bar>x\<bar> < 2 powi (e + 1)" unfolding e_def by (rule exponent_bounds) fact
      ultimately have "\<bar>x\<bar> \<le> 2 powi (- 2)" by linarith
      then have "\<bar>round_to 24 (- 126) x\<bar> \<le> 2 powi (- 2)"
        by (rule round_to_bounded) simp_all
      then have "\<bar>y\<bar> \<le> 1 / 4" by (simp add: y power_int_minus)
      with c show False by simp
    qed
    then have q: "- 25 \<le> q" by (simp add: q_def)
    have "y * 2 ^ 25 = of_int k * (2 powi q * 2 powi 25)" by (simp add: yk)
    also have "2 powi q * 2 powi 25 = (2::real) powi (q + 25)" by (simp add: power_int_add)
    also have "\<dots> = 2 powi (int (nat (q + 25)))" using q by simp
    also have "\<dots> = of_int (2 ^ nat (q + 25))" by (simp only: power_int_of_nat) simp
    finally have "y * 2 ^ 25 = of_int (k * 2 ^ nat (q + 25))" by simp
    then obtain K :: int where K: "y * 2 ^ 25 = of_int K" ..
    have "\<bar>y\<bar> * 2 ^ 25 = \<bar>y * 2 ^ 25\<bar>" by (simp add: abs_mult)
    also have "\<dots> = of_int \<bar>K\<bar>" by (simp only: K of_int_abs)
    finally have a: "\<bar>y\<bar> * 2 ^ 25 = of_int \<bar>K\<bar>" .
    have "4278419646001971 / 4503599627370496 * 2 ^ 25 < \<bar>y\<bar> * 2 ^ 25"
      using c by simp
    then have "(31876710 :: real) < of_int \<bar>K\<bar>" unfolding a by simp
    then have "31876710 < \<bar>K\<bar>" by linarith
    then have "31876711 \<le> \<bar>K\<bar>" by simp
    then have "(31876711 :: real) \<le> of_int \<bar>K\<bar>" by linarith
    moreover have "\<bar>y\<bar> * 2 ^ 25 \<le> 0.95 * 2 ^ 25" using u by simp
    then have "of_int \<bar>K\<bar> \<le> (31876710.4 :: real)" unfolding a by simp
    ultimately show False by simp
  qed
qed

section \<open>Properties of the noise synthesis\<close>

lemma white_loop_unfold:
  "i < len \<Longrightarrow> \<exists>v rng'. white_loop i len buf rng = white_loop (Suc i) len (buf[i := v]) rng'"
  by (subst white_loop.simps, simp add: Let_def case_prod_beta, intro exI, rule refl)

lemma white_loop_done: "\<not> i < len \<Longrightarrow> white_loop i len buf rng = buf"
  by (subst white_loop.simps) simp

lemma white_loop_length: "length (white_loop i len buf rng) = length buf"
proof (induction "len - i" arbitrary: i buf rng)
  case 0
  then show ?case by (simp add: white_loop_done)
next
  case (Suc n)
  then have "i < len" by simp
  then obtain v rng' where
    "white_loop i len buf rng = white_loop (Suc i) len (buf[i := v]) rng'"
    using white_loop_unfold by blast
  moreover have "n = len - Suc i" using Suc.hyps(2) by simp
  ultimately show ?case using Suc.hyps(1) by simp
qed

lemma brown_loop_unfold:
  "i < len \<Longrightarrow>
   \<exists>v rng' l'. brown_loop i len buf rng l = brown_loop (Suc i) len (buf[i := v]) rng' l'"
  by (subst brown_loop.simps, simp add: Let_def case_prod_beta, intro exI, rule refl)

lemma brown_loop_done: "\<not> i < len \<Longrightarrow> brown_loop i len buf rng l = buf"
  by (subst brown_loop.simps) simp

lemma brown_loop_length: "length (brown_loop i len buf rng l) = length buf"
proof (induction "len - i" arbitrary: i buf rng l)
  case 0
  then show ?case by (simp add: brown_loop_done)
next
  case (Suc n)
  then have "i < len" by simp
  then obtain v rng' l' where
    "brown_loop i len buf rng l = brown_loop (Suc i) len (buf[i := v]) rng' l'"
    using brown_loop_unfold by blast
  moreover have "n = len - Suc i" using Suc.hyps(2) by simp
  ultimately show ?case using Suc.hyps(1) by simp
qed

lemma pink_loop_unfold:
  "i < len \<Longrightarrow>
   \<exists>v rng' b'. pink_loop i len buf rng b = pink_loop (Suc i) len (buf[i := v]) rng' b'"
  by (subst pink_loop.simps, simp add: Let_def case_prod_beta, intro exI, rule refl)

lemma pink_loop_done: "\<not> i < len \<Longrightarrow> pink_loop i len buf rng b = buf"
  by (subst pink_loop.simps) simp

lemma pink_loop_length: "length (pink_loop i len buf rng b) = length buf"
proof (induction "len - i" arbitrary: i buf rng b)
  case 0
  then show ?case by (simp add: pink_loop_done)
next
  case (Suc n)
  then have "i < len" by simp
  then obtain v rng' b' where
    "pink_loop i len buf rng b = pink_loop (Suc i) len (buf[i := v]) rng' b'"
    using pink_loop_unfold by blast
  moreover have "n = len - Suc i" using Suc.hyps(2) by simp
  ultimately show ?case using Suc.hyps(1) by simp
qed





lemma Float32Array_new_int:
  "Float32Array_new limit (Num (of_int k)) =
     (if k < 0 \<or> 2 ^ 53 - 1 < k \<or> int limit < k then Inl RangeError
      else Inr (replicate (nat k) 0))"
  by (simp add: Float32Array_new_def trunc_def Let_def)

text \<open>The three ways the call can go, by the binary64 product \<open>duration * sampleRate\<close>.\<close>

lemma generateNoise_overflow:
  "binary64 (d * r) = PosInf \<or> binary64 (d * r) = NegInf \<Longrightarrow>
   generateNoise limit e ty d r sd = Inl RangeError"
  by (auto simp add: generateNoise_def Float32Array_new_def)

lemma generateNoise_refused:
  "binary64 (d * r) = Num p \<Longrightarrow> p < 0 \<or> 2 ^ 53 - 1 < \<lfloor>p\<rfloor> \<or> int limit < \<lfloor>p\<rfloor> \<Longrightarrow>
   generateNoise limit e ty d r sd = Inl RangeError"
  by (auto simp add: generateNoise_def Float32Array_new_int)

lemma generateNoise_allocated:
  assumes "binary64 (d * r) = Num p" "0 \<le> p" "\<lfloor>p\<rfloor> \<le> 2 ^ 53 - 1" "\<lfloor>p\<rfloor> \<le> int limit"
  shows "generateNoise limit e ty d r sd =
     (if ty = ''white''
      then Inr (white_loop 0 (nat \<lfloor>p\<rfloor>) (replicate (nat \<lfloor>p\<rfloor>) 0) (SeededRandom_new e sd))
      else if ty = ''brown''
      then Inr (brown_loop 0 (nat \<lfloor>p\<rfloor>) (replicate (nat \<lfloor>p\<rfloor>) 0) (SeededRandom_new e sd) 0)
      else if ty = ''pink''
      then Inr (pink_loop 0 (nat \<lfloor>p\<rfloor>) (replicate (nat \<lfloor>p\<rfloor>) 0) (SeededRandom_new e sd)
                  \<lparr>b0 = 0, b1 = 0, b2 = 0, b3 = 0, b4 = 0, b5 = 0, b6 = 0\<rparr>)
      else Inl (Error (''Unknown noise type: '' @ ty)))"
proof -
  have "Float32Array_new limit (Num (of_int \<lfloor>p\<rfloor>)) = Inr (replicate (nat \<lfloor>p\<rfloor>) 0)"
    using assms(2-4) by (simp only: Float32Array_new_int) simp
  then show ?thesis
    by (simp add: generateNoise_def assms(1) Let_def)
qed


text \<open>
  C1. Determinism: with a seed supplied, the result of \<open>generateNoise\<close> does not depend on
  the entropy source (what \<open>Math.random()\<close> returns); it is a function of the noise type, the
  duration, the sample rate and the seed alone, so two invocations with the same arguments
  give the same samples, or the same failure, whatever the environment.
\<close>

theorem generateNoise_deterministic:
  "generateNoise limit e1 ty d r (Some s) = generateNoise limit e2 ty d r (Some s)"
  by (simp add: generateNoise_def SeededRandom_new_def Let_def split: sum.split)





text \<open>
  C9, as amended. Let \<open>p\<close> be the binary64 product \<open>duration * sampleRate\<close>, which is a
  number or an infinity. When \<open>p\<close> is negative or infinite, or \<open>floor(p)\<close> is more than
  the engine allocates (at most \<open>2^53 - 1\<close>), \<open>generateNoise\<close> fails with a \<open>RangeError\<close>
  from the allocation of the buffer, whatever the noise type. Otherwise it fails exactly
  when the type is none of white, pink and brown, with the error \<open>Unknown noise type\<close>, and
  for a recognised type it returns \<open>floor(p)\<close> samples: the empty buffer when either
  factor is 0.
\<close>

theorem generateNoise_failure:
  "binary64 (d * r) \<noteq> NaN \<and>
   (binary64 (d * r) = PosInf \<or> binary64 (d * r) = NegInf \<longrightarrow>
      generateNoise limit e ty d r sd = Inl RangeError) \<and>
   (binary64 (d * r) = Num p \<and> (p < 0 \<or> 2 ^ 53 - 1 < \<lfloor>p\<rfloor> \<or> int limit < \<lfloor>p\<rfloor>) \<longrightarrow>
      generateNoise limit e ty d r sd = Inl RangeError) \<and>
   (binary64 (d * r) = Num p \<and> 0 \<le> p \<and> \<lfloor>p\<rfloor> \<le> 2 ^ 53 - 1 \<and> \<lfloor>p\<rfloor> \<le> int limit \<and>
    ty \<notin> {''white'', ''pink'', ''brown''} \<longrightarrow>
      generateNoise limit e ty d r sd = Inl (Error (''Unknown noise type: '' @ ty))) \<and>
   (binary64 (d * r) = Num p \<and> 0 \<le> p \<and> \<lfloor>p\<rfloor> \<le> 2 ^ 53 - 1 \<and> \<lfloor>p\<rfloor> \<le> int limit \<and>
    ty \<in> {''white'', ''pink'', ''brown''} \<longrightarrow>
      (\<exists>buf. generateNoise limit e ty d r sd = Inr buf \<and> int (length buf) = \<lfloor>p\<rfloor>)) \<and>
   ((d = 0 \<or> r = 0) \<and> ty \<in> {''white'', ''pink'', ''brown''} \<longrightarrow>
      generateNoise limit e ty d r sd = Inr [])"
proof (intro conjI impI)
  show "binary64 (d * r) \<noteq> NaN"
    by (rule binary64_not_NaN)
next
  assume "binary64 (d * r) = PosInf \<or> binary64 (d * r) = NegInf"
  then show "generateNoise limit e ty d r sd = Inl RangeError"
    by (rule generateNoise_overflow)
next
  assume "binary64 (d * r) = Num p \<and> (p < 0 \<or> 2 ^ 53 - 1 < \<lfloor>p\<rfloor> \<or> int limit < \<lfloor>p\<rfloor>)"
  then show "generateNoise limit e ty d r sd = Inl RangeError"
    using generateNoise_refused by blast
next
  assume a: "binary64 (d * r) = Num p \<and> 0 \<le> p \<and> \<lfloor>p\<rfloor> \<le> 2 ^ 53 - 1 \<and> \<lfloor>p\<rfloor> \<le> int limit \<and>
    ty \<notin> {''white'', ''pink'', ''brown''}"
  then have "generateNoise limit e ty d r sd =
     (if ty = ''white''
      then Inr (white_loop 0 (nat \<lfloor>p\<rfloor>) (replicate (nat \<lfloor>p\<rfloor>) 0) (SeededRandom_new e sd))
      else if ty = ''brown''
      then Inr (brown_loop 0 (nat \<lfloor>p\<rfloor>) (replicate (nat \<lfloor>p\<rfloor>) 0) (SeededRandom_new e sd) 0)
      else if ty = ''pink''
      then Inr (pink_loop 0 (nat \<lfloor>p\<rfloor>) (replicate (nat \<lfloor>p\<rfloor>) 0) (SeededRandom_new e sd)
                  \<lparr>b0 = 0, b1 = 0, b2 = 0, b3 = 0, b4 = 0, b5 = 0, b6 = 0\<rparr>)
      else Inl (Error (''Unknown noise type: '' @ ty)))"
    by (intro generateNoise_allocated) simp_all
  with a show "generateNoise limit e ty d r sd = Inl (Error (''Unknown noise type: '' @ ty))"
    by simp
next
  assume a: "binary64 (d * r) = Num p \<and> 0 \<le> p \<and> \<lfloor>p\<rfloor> \<le> 2 ^ 53 - 1 \<and> \<lfloor>p\<rfloor> \<le> int limit \<and>
    ty \<in> {''white'', ''pink'', ''brown''}"
  then have "generateNoise limit e ty d r sd =
     (if ty = ''white''
      then Inr (white_loop 0 (nat \<lfloor>p\<rfloor>) (replicate (nat \<lfloor>p\<rfloor>) 0) (SeededRandom_new e sd))
      else if ty = ''brown''
      then Inr (brown_loop 0 (nat \<lfloor>p\<rfloor>) (replicate (nat \<lfloor>p\<rfloor>) 0) (SeededRandom_new e sd) 0)
      else if ty = ''pink''
      then Inr (pink_loop 0 (nat \<lfloor>p\<rfloor>) (replicate (nat \<lfloor>p\<rfloor>) 0) (SeededRandom_new e sd)
                  \<lparr>b0 = 0, b1 = 0, b2 = 0, b3 = 0, b4 = 0, b5 = 0, b6 = 0\<rparr>)
      else Inl (Error (''Unknown noise type: '' @ ty)))"
    by (intro generateNoise_allocated) simp_all
  with a show "\<exists>buf. generateNoise limit e ty d r sd = Inr buf \<and> int (length buf) = \<lfloor>p\<rfloor>"
    by (auto simp add: white_loop_length brown_loop_length pink_loop_length)
next
  assume a: "(d = 0 \<or> r = 0) \<and> ty \<in> {''white'', ''pink'', ''brown''}"
  then have "binary64 (d * r) = Num 0" by auto
  then have "generateNoise limit e ty d r sd =
     (if ty = ''white''
      then Inr (white_loop 0 (nat \<lfloor>0 :: real\<rfloor>) (replicate (nat \<lfloor>0 :: real\<rfloor>) 0) (SeededRandom_new e sd))
      else if ty = ''brown''
      then Inr (brown_loop 0 (nat \<lfloor>0 :: real\<rfloor>) (replicate (nat \<lfloor>0 :: real\<rfloor>) 0) (SeededRandom_new e sd) 0)
      else if ty = ''pink''
      then Inr (pink_loop 0 (nat \<lfloor>0 :: real\<rfloor>) (replicate (nat \<lfloor>0 :: real\<rfloor>) 0) (SeededRandom_new e sd)
                  \<lparr>b0 = 0, b1 = 0, b2 = 0, b3 = 0, b4 = 0, b5 = 0, b6 = 0\<rparr>)
      else Inl (Error (''Unknown noise type: '' @ ty)))"
    by (intro generateNoise_allocated) simp_all
  with a show "generateNoise limit e ty d r sd = Inr []"
    by (auto simp add: white_loop_done brown_loop_done pink_loop_done)
qed

theorem generateNoise_failure_witness:
  "generateNoise 4294967295 0 ''white'' (- 1) 44100 None = Inl RangeError \<and>
   generateNoise 4294967295 0 ''white'' 4294967296 1 None = Inl RangeError \<and>
   generateNoise 4294967295 0 ''violet'' 1 44100 None = Inl (Error ''Unknown noise type: violet'') \<and>
   (\<exists>buf. generateNoise 4294967295 0 ''brown'' 2 3 None = Inr buf \<and> length buf = 6) \<and>
   generateNoise 4294967295 0 ''white'' 0 44100 None = Inr []"
  using generateNoise_failure [of "- 1" 44100 4294967295 0 "''white''" None "- 44100"]
    generateNoise_failure [of 4294967296 1 4294967295 0 "''white''" None 4294967296]
    generateNoise_failure [of 1 44100 4294967295 0 "''violet''" None 44100]
    generateNoise_failure [of 2 3 4294967295 0 "''brown''" None 6]
    generateNoise_failure [of 0 44100 4294967295 0 "''white''" None 0]
  by simp

lemma white_loop_step:
  "i < len \<Longrightarrow> white_loop i len buf rng =
     white_loop (Suc i) len (buf[i := snd (SeededRandom_random rng) * 2 - 1])
       (fst (SeededRandom_random rng))"
  by (subst white_loop.simps) (simp add: case_prod_beta)

lemma white_loop_1: "white_loop 0 (Suc 0) [0] 1 = [59571533 / 2147483647]"
  by (simp add: white_loop_step white_loop_done random_1)

text \<open>
  C9 as stated fails: a negative duration with a positive sample rate makes the allocation
  throw, and a negative duration with a negative sample rate gives a positive length and a
  sample.
\<close>

theorem generateNoise_nonpositive_counterexample:
  "generateNoise 4294967295 0 ''white'' (- 1) 44100 (Some 1) = Inl RangeError \<and>
   generateNoise 4294967295 0 ''white'' (- 1) (- 1) (Some 1) = Inr [59571533 / 2147483647]"
  using generateNoise_refused [of "- 1" 44100 "- 44100" 4294967295 0 "''white''" "Some 1"]
    generateNoise_allocated [of "- 1" "- 1" 1 4294967295 0 "''white''" "Some 1"]
  by (simp add: SeededRandom_new_def white_loop_1)

section \<open>Properties of the stereo expansion\<close>

lemma take_pair_update:
  assumes "i * 2 + 1 < length sb"
  shows "take (Suc i * 2) (sb[i * 2 := a, i * 2 + 1 := b]) = take (i * 2) sb @ [a, b]"
proof -
  let ?l = "sb[i * 2 := a, i * 2 + 1 := b]"
  have "take (Suc (Suc (i * 2))) ?l = take (i * 2) ?l @ [?l ! (i * 2), ?l ! Suc (i * 2)]"
    using assms by (simp add: take_Suc_conv_app_nth)
  then show ?thesis using assms by simp
qed





lemma concat_pairs_length: "length (concat (map (\<lambda>x. [p x, q x]) xs)) = 2 * length xs"
  by (induction xs) simp_all





section \<open>Properties of the PCM conversion\<close>

lemma bit_0xFF: "bit (0xFF :: 32 word) n \<longleftrightarrow> n < 8"
proof -
  have "(0xFF :: 32 word) = mask 8" by (simp add: mask_eq_exp_minus_1)
  then show ?thesis by (simp only: bit_mask_iff) auto
qed

lemma bit_0xFF_int: "bit (0xFF :: int) n \<longleftrightarrow> n < 8"
proof -
  have "(0xFF :: int) = mask 8" by (simp add: mask_eq_exp_minus_1)
  then show ?thesis by (simp only: bit_mask_iff) auto
qed

lemma low_byte: "(ucast ((word_of_int v :: 32 word) AND 0xFF) :: 8 word) = word_of_int v"
  by (rule bit_word_eqI) (auto simp add: bit_simps bit_0xFF bit_0xFF_int)

lemma high_byte:
  "(ucast (signed_drop_bit 8 (word_of_int v :: 32 word) AND 0xFF) :: 8 word) = word_of_int (v div 256)"
proof -
  have "v div 256 = drop_bit 8 v" by (simp add: drop_bit_eq_div)
  then show ?thesis
    by (auto intro!: bit_word_eqI simp add: bit_simps bit_0xFF bit_0xFF_int bit_signed_drop_bit_iff)
qed

lemma le16_alt: "le16 v = [word_of_int v, word_of_int (v div 256)]"
proof -
  have "v mod 256 = take_bit 8 v" "v div 256 mod 256 = take_bit 8 (v div 256)"
    by (simp_all add: take_bit_eq_mod)
  then show ?thesis
    unfolding le16_def by (auto intro!: bit_word_eqI simp add: bit_simps)
qed

lemma float32ToPCM_loop_step:
  "i < length xs \<Longrightarrow> float32ToPCM_loop i xs pcm =
     float32ToPCM_loop (Suc i) xs
       (pcm[i * 2 := le16 (pcm16 (xs ! i)) ! 0, i * 2 + 1 := le16 (pcm16 (xs ! i)) ! 1])"
  by (subst float32ToPCM_loop.simps)
    (simp add: Let_def le16_alt pcm16_def ToInt32_def low_byte high_byte)

lemma float32ToPCM_loop_done: "\<not> i < length xs \<Longrightarrow> float32ToPCM_loop i xs pcm = pcm"
  by (subst float32ToPCM_loop.simps) simp

lemma le16_pair: "[le16 v ! 0, le16 v ! Suc 0] = le16 v"
  by (simp add: le16_def)

lemma float32ToPCM_loop_eq:
  "i \<le> length xs \<Longrightarrow> length pcm = length xs * 2 \<Longrightarrow>
   float32ToPCM_loop i xs pcm = take (i * 2) pcm @ concat (map (\<lambda>x. le16 (pcm16 x)) (drop i xs))"
proof (induction "length xs - i" arbitrary: i pcm)
  case 0
  then show ?case by (simp add: float32ToPCM_loop_done)
next
  case (Suc n)
  then have lt: "i < length xs" and n: "n = length xs - Suc i" by simp_all
  let ?v = "le16 (pcm16 (xs ! i))"
  let ?pcm = "pcm[i * 2 := ?v ! 0, i * 2 + 1 := ?v ! 1]"
  have "float32ToPCM_loop (Suc i) xs ?pcm =
      take (Suc i * 2) ?pcm @ concat (map (\<lambda>x. le16 (pcm16 x)) (drop (Suc i) xs))"
    using Suc.hyps(1) [OF n] lt Suc.prems by simp
  moreover have "take (Suc i * 2) ?pcm = take (i * 2) pcm @ [?v ! 0, ?v ! 1]"
    by (rule take_pair_update) (use lt Suc.prems in simp)
  moreover have "drop i xs = xs ! i # drop (Suc i) xs"
    using lt by (simp add: Cons_nth_drop_Suc)
  ultimately show ?case
    using lt by (simp add: float32ToPCM_loop_step le16_pair del: mult_Suc)
qed

lemma pcm16_range: "- 32768 \<le> pcm16 x \<and> pcm16 x \<le> 32767"
proof -
  define c where "c = max (- 1) (min 1 x)"
  have c: "- 1 \<le> c" "c \<le> 1" by (simp_all add: c_def)
  show ?thesis
  proof (cases "c < 0")
    case True
    then have "c * 32768 < 0" "- 32768 \<le> c * 32768" using c by simp_all
    then have "- 32768 \<le> \<lceil>c * 32768\<rceil>" "\<lceil>c * 32768\<rceil> \<le> 0"
      by (simp_all add: le_ceiling_iff ceiling_le_iff)
    then show ?thesis using True \<open>c * 32768 < 0\<close>
      by (simp add: pcm16_def trunc_def Let_def flip: c_def)
  next
    case False
    then have "0 \<le> c * 32767" "c * 32767 \<le> 32767" using c by simp_all
    then have "0 \<le> \<lfloor>c * 32767\<rfloor>" "\<lfloor>c * 32767\<rfloor> \<le> 32767"
      by (simp_all add: le_floor_iff floor_le_iff)
    then show ?thesis using False \<open>0 \<le> c * 32767\<close>
      by (simp add: pcm16_def trunc_def Let_def flip: c_def)
  qed
qed

lemma int16_le_le16:
  assumes "- 32768 \<le> v" "v \<le> 32767"
  shows "int16_le (le16 v ! 0) (le16 v ! 1) = v"
proof -
  have "(word_cat (word_of_int (v div 256) :: 8 word) (word_of_int v :: 8 word) :: 16 word)
      = word_of_int v"
  proof -
    have d: "v div 256 = drop_bit 8 v" by (simp add: drop_bit_eq_div)
    show ?thesis
      unfolding d
      by (rule bit_word_eqI) (auto simp add: bit_simps bit_word_cat_iff bit_drop_bit_eq)
  qed
  moreover have "sint (word_of_int v :: 16 word) = v"
    using assms by (simp add: sint_sbintrunc' signed_take_bit_int_eq_self)
  ultimately show ?thesis
    by (simp add: int16_le_def le16_alt)
qed

lemma float32ToPCM_eq: "float32ToPCM xs channels = concat (map (\<lambda>x. le16 (pcm16 x)) xs)"
  by (simp add: float32ToPCM_def float32ToPCM_loop_eq)

lemma le16_pair_fun: "(\<lambda>x. le16 (pcm16 x)) = (\<lambda>x. [le16 (pcm16 x) ! 0, le16 (pcm16 x) ! Suc 0])"
  by (simp add: le16_pair)

lemma float32ToPCM_length: "length (float32ToPCM xs channels) = 2 * length xs"
  unfolding float32ToPCM_eq by (subst le16_pair_fun) (rule concat_pairs_length)

text \<open>
  C7. \<open>float32ToPCM\<close> emits, in buffer order, two bytes per sample: the 16-bit two's
  complement number \<open>pcm16 x\<close> (the sample clamped to \<open>[-1, 1]\<close>, scaled by 32768 if
  negative and by 32767 otherwise, truncated), low byte first. That number lies in
  \<open>[-32768, 32767]\<close> and is read back from the two bytes. The output does not depend on the
  \<open>channels\<close> argument.
\<close>

theorem float32ToPCM_bytes:
  "float32ToPCM xs channels = concat (map (\<lambda>x. le16 (pcm16 x)) xs) \<and>
   length (float32ToPCM xs channels) = 2 * length xs \<and>
   float32ToPCM xs channels = float32ToPCM xs channels' \<and>
   - 32768 \<le> pcm16 x \<and> pcm16 x \<le> 32767 \<and>
   int16_le (le16 (pcm16 x) ! 0) (le16 (pcm16 x) ! 1) = pcm16 x"
proof (intro conjI)
  show "float32ToPCM xs channels = concat (map (\<lambda>x. le16 (pcm16 x)) xs)"
    by (rule float32ToPCM_eq)
  show "length (float32ToPCM xs channels) = 2 * length xs"
    by (rule float32ToPCM_length)
  show "float32ToPCM xs channels = float32ToPCM xs channels'"
    by (simp only: float32ToPCM_eq)
  show "- 32768 \<le> pcm16 x" "pcm16 x \<le> 32767"
    using pcm16_range [of x] by simp_all
  then show "int16_le (le16 (pcm16 x) ! 0) (le16 (pcm16 x) ! 1) = pcm16 x"
    by (rule int16_le_le16)
qed

section \<open>Properties of the envelope\<close>

lemma applyEnvelope_loop_step:
  "i < length xs \<Longrightarrow> applyEnvelope_loop i xs fi fo res =
     applyEnvelope_loop (Suc i) xs fi fo
       (res[i := fround (times64 (Num (xs ! i)) (envelope_gain (length xs) fi fo i))])"
  by (subst applyEnvelope_loop.simps) (simp add: Let_def envelope_gain_def)

lemma applyEnvelope_loop_done: "\<not> i < length xs \<Longrightarrow> applyEnvelope_loop i xs fi fo res = res"
  by (subst applyEnvelope_loop.simps) simp

lemma applyEnvelope_loop_length: "length (applyEnvelope_loop i xs fi fo res) = length res"
proof (induction "length xs - i" arbitrary: i res)
  case 0
  then show ?case by (simp add: applyEnvelope_loop_done)
next
  case (Suc n)
  then have "i < length xs" "n = length xs - Suc i" by simp_all
  then show ?case using Suc.hyps(1) [of "Suc i"] by (simp add: applyEnvelope_loop_step)
qed

lemma applyEnvelope_loop_keep: "k < i \<Longrightarrow> applyEnvelope_loop i xs fi fo res ! k = res ! k"
proof (induction "length xs - i" arbitrary: i res)
  case 0
  then show ?case by (simp add: applyEnvelope_loop_done)
next
  case (Suc n)
  then have "i < length xs" "n = length xs - Suc i" by simp_all
  then show ?case using Suc.hyps(1) [of "Suc i"] Suc.prems by (simp add: applyEnvelope_loop_step)
qed

lemma applyEnvelope_loop_nth:
  "i \<le> k \<Longrightarrow> k < length xs \<Longrightarrow> length res = length xs \<Longrightarrow>
   applyEnvelope_loop i xs fi fo res ! k =
   fround (times64 (Num (xs ! k)) (envelope_gain (length xs) fi fo k))"
proof (induction "k - i" arbitrary: i res)
  case 0
  then have "i = k" by simp
  then show ?case using 0 by (simp add: applyEnvelope_loop_step applyEnvelope_loop_keep)
next
  case (Suc n)
  then have "i < length xs" "n = k - Suc i" "Suc i \<le> k" by simp_all
  then show ?case
    using Suc.hyps(1) [of "Suc i"] Suc.prems by (simp add: applyEnvelope_loop_step)
qed

lemma applyEnvelope_nth:
  "k < length xs \<Longrightarrow>
   applyEnvelope xs fadeInSec fadeOutSec sampleRate ! k =
   fround (times64 (Num (xs ! k))
     (envelope_gain (length xs) (Math_floor (binary64 (fadeInSec * sampleRate)))
        (Math_floor (binary64 (fadeOutSec * sampleRate))) k))"
  by (simp add: applyEnvelope_def Let_def applyEnvelope_loop_nth)

lemma applyEnvelope_length: "length (applyEnvelope xs fadeInSec fadeOutSec sampleRate) = length xs"
  by (simp add: applyEnvelope_def Let_def applyEnvelope_loop_length)

lemma applyEnvelope_last:
  assumes "xs \<noteq> []"
  shows "last (applyEnvelope xs fadeInSec fadeOutSec sampleRate) =
     fround (times64 (Num (last xs))
       (envelope_gain (length xs) (Math_floor (binary64 (fadeInSec * sampleRate)))
          (Math_floor (binary64 (fadeOutSec * sampleRate))) (length xs - 1)))"
proof -
  have "applyEnvelope xs fadeInSec fadeOutSec sampleRate \<noteq> []"
    using assms applyEnvelope_length [of xs] by (metis length_0_conv)
  then have "last (applyEnvelope xs fadeInSec fadeOutSec sampleRate) =
      applyEnvelope xs fadeInSec fadeOutSec sampleRate ! (length xs - 1)"
    by (simp add: last_conv_nth applyEnvelope_length)
  also have "\<dots> = fround (times64 (Num (xs ! (length xs - 1)))
       (envelope_gain (length xs) (Math_floor (binary64 (fadeInSec * sampleRate)))
          (Math_floor (binary64 (fadeOutSec * sampleRate))) (length xs - 1)))"
    using assms by (intro applyEnvelope_nth) simp
  finally show ?thesis using assms by (simp add: last_conv_nth)
qed

text \<open>In the fade-in region the gain at index 0 is 0, whatever the fade-out does.\<close>

lemma envelope_gain_first:
  assumes "0 < len" "num_gt fi 0"
  shows "envelope_gain len fi fo 0 = Num 0"
proof -
  have g1: "times64 (Num 1) (divide64 (Num 0) fi) = Num 0"
    using assms(2) by (cases fi) simp_all
  have g2: "times64 (Num 0) (divide64 (Num (real len)) fo) = Num 0"
    if "num_le (num_minus (real len) fo) 0"
  proof (cases fo)
    case (Num n)
    with that have n: "real len \<le> n" by simp
    with assms(1) have "0 < n" by linarith
    with n assms(1) have "\<bar>real len / n\<bar> \<le> 1" by simp
    from binary64_le_1(1) [OF this] \<open>0 < n\<close> show ?thesis by (simp add: Num)
  qed (use that in simp_all)
  show ?thesis
    using assms(2) g1 g2 by (simp add: envelope_gain_def Let_def)
qed

text \<open>
  Outside the fade-in region the gain at the last index is the binary64 quotient
  \<open>1 / fadeOutSamples\<close>.
\<close>

lemma envelope_gain_last:
  assumes "0 < len" "1 \<le> n" "\<not> num_gt fi (real len - 1)"
  shows "envelope_gain len fi (Num n) (len - 1) = binary64 (1 / n)"
proof -
  have l: "real (len - 1) = real len - 1" using assms(1) by (simp add: of_nat_diff)
  have "\<bar>1 / n\<bar> \<le> 1" using assms(2) by simp
  from binary64_le_1(1) [OF this] have g: "binary64 (1 / n) = Num (round_to 53 (- 1022) (1 / n))" .
  then have "binary64 (round_to 53 (- 1022) (1 / n)) = Num (round_to 53 (- 1022) (1 / n))"
    by (rule binary64_idem)
  then show ?thesis
    using assms by (simp add: envelope_gain_def Let_def l g)
qed

text \<open>With an infinite fade-out length the gain at the last index is 0.\<close>

lemma envelope_gain_last_inf:
  assumes "\<not> num_gt fi (real len - 1)" "0 < len"
  shows "envelope_gain len fi PosInf (len - 1) = Num 0"
proof -
  have "real (len - 1) = real len - 1" using assms(2) by (simp add: of_nat_diff)
  then show ?thesis using assms(1) by (simp add: envelope_gain_def Let_def)
qed

text \<open>
  C10, as amended. For a non-empty buffer: when \<open>floor(fadeInSec * sampleRate) \<ge> 1\<close> (the
  product in binary64) the first output sample is 0. When
  \<open>n = floor(fadeOutSec * sampleRate) \<ge> 1\<close> is finite and the last index is outside the
  fade-in region, the gain at the last index is \<open>g\<close>, the binary64 quotient \<open>1 / n\<close>, which
  is positive, and the last output sample is the product of the last input sample and \<open>g\<close>,
  computed in binary64 and stored as binary32. It is not 0 when the magnitude of the exact
  product is at least \<open>2^-149\<close>, the least positive binary32 number. When the product
  \<open>fadeOutSec * sampleRate\<close> overflows to infinity the gain and the last output sample are 0.
\<close>

theorem applyEnvelope_endpoints:
  assumes "xs \<noteq> []"
  shows "(num_gt (Math_floor (binary64 (fadeInSec * sampleRate))) 0 \<longrightarrow>
            applyEnvelope xs fadeInSec fadeOutSec sampleRate ! 0 = Num 0) \<and>
         (Math_floor (binary64 (fadeOutSec * sampleRate)) = Num n \<and> 1 \<le> n \<and>
          \<not> num_gt (Math_floor (binary64 (fadeInSec * sampleRate))) (real (length xs) - 1) \<longrightarrow>
            (\<exists>g. binary64 (1 / n) = Num g \<and> 0 < g \<and>
               last (applyEnvelope xs fadeInSec fadeOutSec sampleRate) =
                 fround (binary64 (last xs * g)) \<and>
               (1 / 2 ^ 149 \<le> \<bar>last xs * g\<bar> \<longrightarrow>
                  last (applyEnvelope xs fadeInSec fadeOutSec sampleRate) \<noteq> Num 0))) \<and>
         (Math_floor (binary64 (fadeOutSec * sampleRate)) = PosInf \<and>
          \<not> num_gt (Math_floor (binary64 (fadeInSec * sampleRate))) (real (length xs) - 1) \<longrightarrow>
            last (applyEnvelope xs fadeInSec fadeOutSec sampleRate) = Num 0)"
proof -
  let ?fi = "Math_floor (binary64 (fadeInSec * sampleRate))"
  let ?fo = "Math_floor (binary64 (fadeOutSec * sampleRate))"
  let ?ys = "applyEnvelope xs fadeInSec fadeOutSec sampleRate"
  have len: "0 < length xs" using assms by simp
  have first: "?ys ! 0 = Num 0" if "num_gt ?fi 0"
    using len envelope_gain_first [OF len that] by (simp add: applyEnvelope_nth)
  have lasts: "\<exists>g. binary64 (1 / n) = Num g \<and> 0 < g \<and>
      last ?ys = fround (binary64 (last xs * g)) \<and>
      (1 / 2 ^ 149 \<le> \<bar>last xs * g\<bar> \<longrightarrow> last ?ys \<noteq> Num 0)"
    if fo: "?fo = Num n" and n: "1 \<le> n" and fi: "\<not> num_gt ?fi (real (length xs) - 1)"
  proof -
    obtain m where m: "length xs = Suc m"
      using len by (cases "length xs") simp_all
    have "\<bar>1 / n\<bar> \<le> 1" using n by simp
    from binary64_le_1(1) [OF this] obtain g where g: "binary64 (1 / n) = Num g"
      by blast
    obtain y where y: "binary64 (fadeOutSec * sampleRate) = Num y" "n = of_int \<lfloor>y\<rfloor>"
      using fo by (cases "binary64 (fadeOutSec * sampleRate)") auto
    have "\<bar>y\<bar> < 2 ^ 1024"
      using y(1) unfolding binary64_def by (rule to_format_NumD)
    then have "n < 2 ^ 1024" using y(2) by linarith
    then have "1 / 2 ^ 1024 \<le> 1 / n" using n by (simp add: frac_le)
    moreover have "(1 / 2 ^ 1024 :: real) = 2 powi (- 1024)"
      by (simp add: power_int_minus field_simps)
    ultimately have "2 powi (- 1024) \<le> \<bar>1 / n\<bar>" using n by simp
    then have "2 powi (- 1024) \<le> \<bar>g\<bar>"
      using g unfolding binary64_def
      by (intro to_format_lower(2) [of "- 1024" "1 / n" "- 1022" 53 1024 g]) simp_all
    moreover have "0 \<le> g"
      using g n to_format_NumD(3) [of 53 "- 1022" 1024 "1 / n" g] by (simp add: binary64_def)
    moreover have "0 < (2::real) powi (- 1024)" by (rule zero_less_power_int) simp
    ultimately have gpos: "0 < g" by linarith
    have "?ys \<noteq> []" using assms applyEnvelope_length [of xs] by (metis length_0_conv)
    then have "last ?ys = ?ys ! m"
      by (simp add: last_conv_nth applyEnvelope_length m)
    also have "\<dots> = fround (times64 (Num (xs ! m)) (envelope_gain (Suc m) ?fi ?fo m))"
      using applyEnvelope_nth [of m xs] by (simp add: m)
    also have "envelope_gain (Suc m) ?fi ?fo m = Num g"
      using envelope_gain_last [of "Suc m" n ?fi] n fi by (simp add: m fo g)
    finally have l: "last ?ys = fround (binary64 (last xs * g))"
      using assms by (simp add: last_conv_nth m)
    have "last ?ys \<noteq> Num 0" if "1 / 2 ^ 149 \<le> \<bar>last xs * g\<bar>"
      unfolding l using that by (rule stored_nonzero)
    with g gpos l show ?thesis by blast
  qed
  have inf: "last ?ys = Num 0"
    if "?fo = PosInf" and "\<not> num_gt ?fi (real (length xs) - 1)"
    using envelope_gain_last_inf [OF that(2) len]
    by (simp add: applyEnvelope_last [OF assms] that(1))
  show ?thesis using first lasts inf by blast
qed

theorem applyEnvelope_endpoints_witness:
  "[1, 2, 4 :: real] \<noteq> [] \<and> num_gt (Math_floor (binary64 (1 * 1))) 0 \<and>
   Math_floor (binary64 (2 * 1)) = Num 2 \<and> (1 :: real) \<le> 2 \<and>
   \<not> num_gt (Math_floor (binary64 (1 * 1))) (real (length [1, 2, 4 :: real]) - 1) \<and>
   applyEnvelope [1, 2, 4] 1 2 1 ! 0 = Num 0 \<and>
   binary64 (1 / 2) = Num (1 / 2) \<and>
   last (applyEnvelope [1, 2, 4] 1 2 1) = Num 2"
proof -
  have h: "[1, 2, 4 :: real] \<noteq> []" "num_gt (Math_floor (binary64 (1 * 1))) 0"
    "Math_floor (binary64 (2 * 1)) = Num 2" "(1 :: real) \<le> 2"
    "\<not> num_gt (Math_floor (binary64 (1 * 1))) (real (length [1, 2, 4 :: real]) - 1)"
    by simp_all
  have half: "binary64 (1 / 2) = Num (1 / 2)"
    using binary64_dyadic [of 1 1] by simp
  from applyEnvelope_endpoints [OF h(1), where fadeInSec = 1 and sampleRate = 1
      and fadeOutSec = 2 and n = 2] h(2-5)
  have first: "applyEnvelope [1, 2, 4] 1 2 1 ! 0 = Num 0"
    and "\<exists>g. binary64 (1 / 2) = Num g \<and> 0 < g \<and>
           last (applyEnvelope [1, 2, 4] 1 2 1) = fround (binary64 (last [1, 2, 4] * g))"
    by blast+
  then obtain g where "binary64 (1 / 2) = Num g"
    "last (applyEnvelope [1, 2, 4] 1 2 1) = fround (binary64 (last [1, 2, 4] * g))"
    by blast
  moreover from this(1) half have "g = 1 / 2" by simp
  ultimately have "last (applyEnvelope [1, 2, 4] 1 2 1) = Num 2" by simp
  with h first half show ?thesis by blast
qed

text \<open>
  C10 as stated fails: with a fade-out of 4 samples the gain at the last index is 1/4, and
  the last input sample \<open>2^-149\<close>, the least positive binary32 number, gives the product
  \<open>2^-151\<close>, which is stored as 0.
\<close>

theorem applyEnvelope_underflow_counterexample:
  "Math_floor (binary64 (0 * 1)) = Num 0 \<and> Math_floor (binary64 (4 * 1)) = Num 4 \<and>
   last [1, 1, 1, 1 / 2 ^ 149 :: real] \<noteq> 0 \<and>
   last (applyEnvelope [1, 1, 1, 1 / 2 ^ 149] 0 4 1) = Num 0"
proof -
  let ?xs = "[1, 1, 1, 1 / 2 ^ 149 :: real]"
  have fi: "Math_floor (binary64 (0 * 1)) = Num 0" and fo: "Math_floor (binary64 (4 * 1)) = Num 4"
    by simp_all
  have q: "binary64 (1 / 4) = Num (1 / 4)"
    using binary64_dyadic [of 1 2] by simp
  have p: "times64 (Num (1 / 2 ^ 149)) (Num (1 / 4)) = Num (1 / 2 ^ 151)"
    using binary64_dyadic [of 1 151] by simp
  have u: "fround (Num (1 / 2 ^ 151)) = Num 0"
    using binary32_underflow by simp
  have "last (applyEnvelope ?xs 0 4 1) =
      fround (times64 (Num (last ?xs))
        (envelope_gain (length ?xs) (Math_floor (binary64 (0 * 1)))
           (Math_floor (binary64 (4 * 1))) (length ?xs - 1)))"
    by (rule applyEnvelope_last) simp
  also have "envelope_gain (length ?xs) (Math_floor (binary64 (0 * 1)))
      (Math_floor (binary64 (4 * 1))) (length ?xs - 1) = binary64 (1 / 4)"
    unfolding fi fo by (rule envelope_gain_last) simp_all
  also have "binary64 (1 / 4) = Num (1 / 4)" by (rule q)
  also have "last ?xs = 1 / 2 ^ 149" by simp
  also have "times64 (Num (1 / 2 ^ 149)) (Num (1 / 4)) = Num (1 / 2 ^ 151)" by (rule p)
  also have "fround (Num (1 / 2 ^ 151)) = Num 0" by (rule u)
  finally have "last (applyEnvelope ?xs 0 4 1) = Num 0" .
  then show ?thesis using fi fo by simp
qed

section \<open>Properties of the container\<close>

lemma le_bytes_4:
  "le_bytes 4 v = [of_nat v, of_nat (v div 256), of_nat (v div 256 div 256),
                   of_nat (v div 256 div 256 div 256)]"
proof -
  have "(4::nat) = Suc (Suc (Suc (Suc 0)))" by simp
  then show ?thesis by (simp only: le_bytes.simps)
qed

lemma le_bytes_2: "le_bytes 2 v = [of_nat v, of_nat (v div 256)]"
proof -
  have "(2::nat) = Suc (Suc 0)" by simp
  then show ?thesis by (simp only: le_bytes.simps)
qed

lemma replicate_44: "replicate 44 (0 :: 8 word) =
  [0,0,0,0, 0,0,0,0, 0,0,0,0, 0,0,0,0, 0,0,0,0, 0,0,0,0, 0,0,0,0, 0,0,0,0, 0,0,0,0, 0,0,0,0, 0,0,0,0]"
  by (simp add: eval_nat_numeral)

lemma list_update_Cons_numeral: "(x # xs)[numeral v := y] = x # xs[numeral v - 1 := y]"
  by (simp add: numeral_eq_Suc)

lemma header_eval:
  assumes "t \<le> 4294967295" "r \<le> 4294967295" "q \<le> 4294967295" "p \<le> 4294967295"
  shows "header_steps (replicate 44 0)
            [Write ''RIFF'' 0, UInt32LE (real t) 4, Write ''WAVE'' 8, Write ''fmt '' 12,
             UInt32LE 16 16, UInt16LE 1 20, UInt16LE 1 22, UInt32LE (real r) 24,
             UInt32LE (real q) 28, UInt16LE 2 32, UInt16LE 16 34, Write ''data'' 36,
             UInt32LE (real p) 40] =
         Inr ([82, 73, 70, 70] @ le_bytes 4 t @ [87, 65, 86, 69, 102, 109, 116, 32,
              16, 0, 0, 0, 1, 0, 1, 0] @ le_bytes 4 r @ le_bytes 4 q @ [2, 0, 16, 0,
              100, 97, 116, 97] @ le_bytes 4 p)"
  using assms
  by (simp add: replicate_44 writeUInt32LE_def writeUInt16LE_def write_string_def ascii_def
      le_bytes_4 le_bytes_2 list_update_Cons_numeral)

lemma header_fail:
  assumes "\<not> (t \<le> 4294967295 \<and> r \<le> 4294967295 \<and> q \<le> 4294967295 \<and> p \<le> 4294967295)"
  shows "header_steps (replicate 44 0)
            [Write ''RIFF'' 0, UInt32LE (real t) 4, Write ''WAVE'' 8, Write ''fmt '' 12,
             UInt32LE 16 16, UInt16LE 1 20, UInt16LE 1 22, UInt32LE (real r) 24,
             UInt32LE (real q) 28, UInt16LE 2 32, UInt16LE 16 34, Write ''data'' 36,
             UInt32LE (real p) 40] = Inl RangeError"
proof (cases "t \<le> 4294967295")
  case False
  then show ?thesis
    by (simp add: writeUInt32LE_def)
next
  case t: True
  show ?thesis
  proof (cases "r \<le> 4294967295")
    case False
    then show ?thesis using t
      by (simp add: writeUInt32LE_def writeUInt16LE_def)
  next
    case r: True
    show ?thesis
    proof (cases "q \<le> 4294967295")
      case False
      then show ?thesis using t r
        by (simp add: writeUInt32LE_def writeUInt16LE_def)
    next
      case True
      then have "\<not> p \<le> 4294967295" using assms t r by simp
      then show ?thesis using t r True
        by (simp add: writeUInt32LE_def writeUInt16LE_def)
    qed
  qed
qed

lemma length_le_bytes: "length (le_bytes k v) = k"
  by (induction k arbitrary: v) simp_all

lemma le_nat_le_bytes: "le_nat (le_bytes k v) = v mod 256 ^ k"
proof (induction k arbitrary: v)
  case 0
  then show ?case by simp
next
  case (Suc k)
  have "unat (of_nat v :: 8 word) = v mod 256"
    by (simp add: unat_of_nat)
  then show ?case
    using Suc [of "v div 256"] by (simp add: mod_mult2_eq)
qed

lemma writeWav_mono:
  "writeWav xs (real R) 1 =
     (if 2 * length xs + 36 \<le> 4294967295 \<and> 2 * R \<le> 4294967295 then
        Inr ([82, 73, 70, 70] @ le_bytes 4 (2 * length xs + 36) @
             [87, 65, 86, 69, 102, 109, 116, 32, 16, 0, 0, 0, 1, 0, 1, 0] @
             le_bytes 4 R @ le_bytes 4 (2 * R) @ [2, 0, 16, 0, 100, 97, 116, 97] @
             le_bytes 4 (2 * length xs) @ float32ToPCM xs 1)
      else Inl RangeError)"
proof -
  have t: "real (2 * length xs) + 44 - 8 = real (2 * length xs + 36)"
    by simp
  have ba: "(1::real) * 2 = 2"
    by simp
  have q: "real R * 2 = real (2 * R)"
    by simp
  have p: "real (length (float32ToPCM xs 1)) = real (2 * length xs)"
    by (simp add: float32ToPCM_length)
  show ?thesis
  proof (cases "2 * length xs + 36 \<le> 4294967295 \<and> 2 * R \<le> 4294967295")
    case True
    then have "2 * length xs + 36 \<le> 4294967295" "R \<le> 4294967295" "2 * R \<le> 4294967295"
      "2 * length xs \<le> 4294967295" by simp_all
    from header_eval [OF this] True show ?thesis
      unfolding writeWav_def Let_def p t ba q by simp
  next
    case False
    then have "\<not> (2 * length xs + 36 \<le> 4294967295 \<and> R \<le> 4294967295 \<and>
      2 * R \<le> 4294967295 \<and> 2 * length xs \<le> 4294967295)" by blast
    from header_fail [OF this] False show ?thesis
      unfolding writeWav_def Let_def p t ba q by auto
  qed
qed

text \<open>
  C6. For a buffer of \<open>N\<close> samples, \<open>channels = 1\<close> and an integer sample rate \<open>R\<close>:
  \<open>writeWav\<close> produces a container when the 32-bit fields can hold their values
  (\<open>36 + 2N\<close> and \<open>2R\<close> below \<open>2^32\<close>; otherwise the write throws before anything is
  produced), and every container it produces has \<open>44 + 2N\<close> bytes, the tags \<open>RIFF\<close>,
  \<open>WAVE\<close>, \<open>fmt \<close> and \<open>data\<close>, RIFF size \<open>36 + 2N\<close>, fmt size 16, format tag 1,
  1 channel, sample rate \<open>R\<close>, byte rate \<open>2R\<close>, block align 2, 16 bits per sample, data
  size \<open>2N\<close>, and the PCM bytes from offset 44 on.
\<close>

theorem writeWav_header:
  "(2 * length xs + 36 \<le> 4294967295 \<and> 2 * R \<le> 4294967295 \<longrightarrow>
      (\<exists>wav. writeWav xs (real R) 1 = Inr wav)) \<and>
   (writeWav xs (real R) 1 = Inr wav \<longrightarrow>
      length wav = 44 + 2 * length xs \<and>
      take 4 wav = ascii ''RIFF'' \<and>
      field wav 4 4 = 36 + 2 * length xs \<and>
      take 4 (drop 8 wav) = ascii ''WAVE'' \<and>
      take 4 (drop 12 wav) = ascii ''fmt '' \<and>
      field wav 16 4 = 16 \<and>
      field wav 20 2 = 1 \<and>
      field wav 22 2 = 1 \<and>
      field wav 24 4 = R \<and>
      field wav 28 4 = 2 * R \<and>
      field wav 32 2 = 2 \<and>
      field wav 34 2 = 16 \<and>
      take 4 (drop 36 wav) = ascii ''data'' \<and>
      field wav 40 4 = 2 * length xs \<and>
      drop 44 wav = float32ToPCM xs 1)"
proof (intro conjI impI)
  assume "2 * length xs + 36 \<le> 4294967295 \<and> 2 * R \<le> 4294967295"
  then show "\<exists>wav. writeWav xs (real R) 1 = Inr wav"
    by (simp add: writeWav_mono)
next
  assume a: "writeWav xs (real R) 1 = Inr wav"
  then have r: "2 * length xs + 36 \<le> 4294967295 \<and> 2 * R \<le> 4294967295"
    unfolding writeWav_mono by (simp split: if_splits)
  define T where "T = le_bytes 4 (2 * length xs + 36)"
  define Rb where "Rb = le_bytes 4 R"
  define Q where "Q = le_bytes 4 (2 * R)"
  define P where "P = le_bytes 4 (2 * length xs)"
  define pcm where "pcm = float32ToPCM xs 1"
  have len: "length T = 4" "length Rb = 4" "length Q = 4" "length P = 4"
    "length pcm = 2 * length xs"
    by (simp_all add: T_def Rb_def Q_def P_def pcm_def length_le_bytes float32ToPCM_length)
  have val: "le_nat T = 2 * length xs + 36" "le_nat Rb = R" "le_nat Q = 2 * R"
    "le_nat P = 2 * length xs"
    using r by (simp_all add: T_def Rb_def Q_def P_def le_nat_le_bytes)
  have wav: "wav = [82, 73, 70, 70] @ T @
             [87, 65, 86, 69, 102, 109, 116, 32, 16, 0, 0, 0, 1, 0, 1, 0] @
             Rb @ Q @ [2, 0, 16, 0, 100, 97, 116, 97] @ P @ pcm"
    using a r unfolding writeWav_mono T_def Rb_def Q_def P_def pcm_def by simp
  show "length wav = 44 + 2 * length xs"
    by (simp add: wav len)
  show "take 4 wav = ascii ''RIFF''"
    by (simp add: wav ascii_def)
  show "field wav 4 4 = 36 + 2 * length xs"
    by (simp add: wav field_def len val)
  show "take 4 (drop 8 wav) = ascii ''WAVE''"
    by (simp add: wav ascii_def len)
  show "take 4 (drop 12 wav) = ascii ''fmt ''"
    by (simp add: wav ascii_def len)
  show "field wav 16 4 = 16"
    by (simp add: wav field_def len)
  show "field wav 20 2 = 1"
    by (simp add: wav field_def len)
  show "field wav 22 2 = 1"
    by (simp add: wav field_def len)
  show "field wav 24 4 = R"
    by (simp add: wav field_def len val)
  show "field wav 28 4 = 2 * R"
    by (simp add: wav field_def len val)
  show "field wav 32 2 = 2"
    by (simp add: wav field_def len)
  show "field wav 34 2 = 16"
    by (simp add: wav field_def len)
  show "take 4 (drop 36 wav) = ascii ''data''"
    by (simp add: wav ascii_def len)
  show "field wav 40 4 = 2 * length xs"
    by (simp add: wav field_def len val)
  show "drop 44 wav = float32ToPCM xs 1"
    by (simp add: wav len pcm_def)
qed

lemma writeWav_example:
  "writeWav [1 / 2] (real 44100) 1 =
     Inr [82, 73, 70, 70, 38, 0, 0, 0, 87, 65, 86, 69, 102, 109, 116, 32,
          16, 0, 0, 0, 1, 0, 1, 0, 68, 172, 0, 0, 136, 88, 1, 0, 2, 0, 16, 0,
          100, 97, 116, 97, 2, 0, 0, 0, 255, 63]"
  unfolding writeWav_mono
  by (simp add: le_bytes_4 float32ToPCM_eq pcm16_def le16_def trunc_def)

theorem writeWav_header_witness:
  "2 * length [1 / 2 :: real] + 36 \<le> 4294967295 \<and> 2 * (44100 :: nat) \<le> 4294967295 \<and>
   writeWav [1 / 2] (real 44100) 1 =
     Inr [82, 73, 70, 70, 38, 0, 0, 0, 87, 65, 86, 69, 102, 109, 116, 32,
          16, 0, 0, 0, 1, 0, 1, 0, 68, 172, 0, 0, 136, 88, 1, 0, 2, 0, 16, 0,
          100, 97, 116, 97, 2, 0, 0, 0, 255, 63] \<and>
   field [82, 73, 70, 70, 38, 0, 0, 0, 87, 65, 86, 69, 102, 109, 116, 32,
          16, 0, 0, 0, 1, 0, 1, 0, 68, 172, 0, 0, 136, 88, 1, 0, 2, 0, 16, 0,
          100, 97, 116, 97, 2, 0, 0, 0, 255, 63] 24 4 = 44100 \<and>
   field [82, 73, 70, 70, 38, 0, 0, 0, 87, 65, 86, 69, 102, 109, 116, 32,
          16, 0, 0, 0, 1, 0, 1, 0, 68, 172, 0, 0, 136, 88, 1, 0, 2, 0, 16, 0,
          100, 97, 116, 97, 2, 0, 0, 0, 255, 63] 28 4 = 2 * 44100"
proof -
  let ?W = "[82, 73, 70, 70, 38, 0, 0, 0, 87, 65, 86, 69, 102, 109, 116, 32,
          16, 0, 0, 0, 1, 0, 1, 0, 68, 172, 0, 0, 136, 88, 1, 0, 2, 0, 16, 0,
          100, 97, 116, 97, 2, 0, 0, 0, 255, 63] :: 8 word list"
  have e: "writeWav [1 / 2] (real 44100) 1 = Inr ?W"
    by (rule writeWav_example)
  with writeWav_header [of "[1 / 2]" 44100 ?W]
  have "field ?W 24 4 = 44100 \<and> field ?W 28 4 = 2 * 44100"
    by blast
  moreover have "2 * length [1 / 2 :: real] + 36 \<le> 4294967295 \<and> 2 * (44100 :: nat) \<le> 4294967295"
    by simp
  ultimately show ?thesis using e by blast
qed

section \<open>Properties of the mixer\<close>

lemma mix_base_loop_step:
  "i < length xs \<Longrightarrow> mix_base_loop i xs bl mixed =
     mix_base_loop (Suc i) xs bl (mixed[i := fround (times64 (Num (xs ! i)) (Num bl))])"
  by (subst mix_base_loop.simps) simp

lemma mix_base_loop_done: "\<not> i < length xs \<Longrightarrow> mix_base_loop i xs bl mixed = mixed"
  by (subst mix_base_loop.simps) simp

lemma mix_base_loop_length: "length (mix_base_loop i xs bl mixed) = length mixed"
proof (induction "length xs - i" arbitrary: i mixed)
  case 0
  then show ?case by (simp add: mix_base_loop_done)
next
  case (Suc n)
  then have "i < length xs" "n = length xs - Suc i" by simp_all
  then show ?case using Suc.hyps(1) [of "Suc i"] by (simp add: mix_base_loop_step)
qed

lemma mix_base_loop_keep: "k < i \<Longrightarrow> mix_base_loop i xs bl mixed ! k = mixed ! k"
proof (induction "length xs - i" arbitrary: i mixed)
  case 0
  then show ?case by (simp add: mix_base_loop_done)
next
  case (Suc n)
  then have "i < length xs" "n = length xs - Suc i" by simp_all
  then show ?case using Suc.hyps(1) [of "Suc i"] Suc.prems by (simp add: mix_base_loop_step)
qed

lemma mix_base_loop_nth:
  "i \<le> k \<Longrightarrow> k < length xs \<Longrightarrow> length mixed = length xs \<Longrightarrow>
   mix_base_loop i xs bl mixed ! k = fround (times64 (Num (xs ! k)) (Num bl))"
proof (induction "k - i" arbitrary: i mixed)
  case 0
  then have "i = k" by simp
  then show ?case using 0 by (simp add: mix_base_loop_step mix_base_loop_keep)
next
  case (Suc n)
  then have "i < length xs" "n = k - Suc i" "Suc i \<le> k" by simp_all
  then show ?case using Suc.hyps(1) [of "Suc i"] Suc.prems by (simp add: mix_base_loop_step)
qed

lemma mix_layer_loop_step:
  "i < len \<Longrightarrow> mix_layer_loop i len layer w mixed =
     mix_layer_loop (Suc i) len layer w
       (mixed[i := fround (plus64 (mixed ! i) (times64 (read_sample (buffer layer) i) w))])"
  by (subst mix_layer_loop.simps) simp

lemma mix_layer_loop_done: "\<not> i < len \<Longrightarrow> mix_layer_loop i len layer w mixed = mixed"
  by (subst mix_layer_loop.simps) simp

lemma mix_layer_loop_length: "length (mix_layer_loop i len layer w mixed) = length mixed"
proof (induction "len - i" arbitrary: i mixed)
  case 0
  then show ?case by (simp add: mix_layer_loop_done)
next
  case (Suc n)
  then have "i < len" "n = len - Suc i" by simp_all
  then show ?case using Suc.hyps(1) [of "Suc i"] by (simp add: mix_layer_loop_step)
qed

lemma mix_layer_loop_keep: "k < i \<Longrightarrow> mix_layer_loop i len layer w mixed ! k = mixed ! k"
proof (induction "len - i" arbitrary: i mixed)
  case 0
  then show ?case by (simp add: mix_layer_loop_done)
next
  case (Suc n)
  then have "i < len" "n = len - Suc i" by simp_all
  then show ?case using Suc.hyps(1) [of "Suc i"] Suc.prems by (simp add: mix_layer_loop_step)
qed

lemma mix_layer_loop_nth:
  "i \<le> k \<Longrightarrow> k < len \<Longrightarrow> len \<le> length mixed \<Longrightarrow>
   mix_layer_loop i len layer w mixed ! k =
   fround (plus64 (mixed ! k) (times64 (read_sample (buffer layer) k) w))"
proof (induction "k - i" arbitrary: i mixed)
  case 0
  then have "i = k" by simp
  then show ?case using 0 by (simp add: mix_layer_loop_step mix_layer_loop_keep)
next
  case (Suc n)
  then have i: "i < len" and n: "n = k - Suc i" and k: "Suc i \<le> k" by simp_all
  let ?m = "mixed[i := fround (plus64 (mixed ! i) (times64 (read_sample (buffer layer) i) w))]"
  have "mix_layer_loop i len layer w mixed ! k = mix_layer_loop (Suc i) len layer w ?m ! k"
    using i by (simp only: mix_layer_loop_step)
  also have "\<dots> = fround (plus64 (?m ! k) (times64 (read_sample (buffer layer) k) w))"
    using n k Suc.prems by (intro Suc.hyps(1)) simp_all
  also have "?m ! k = mixed ! k"
    using k by simp
  finally show ?case .
qed

lemma limit_loop_step:
  "i < len \<Longrightarrow> limit_loop i len mixed = limit_loop (Suc i) len (mixed[i := soft_limit (mixed ! i)])"
  by (subst limit_loop.simps) simp

lemma limit_loop_done: "\<not> i < len \<Longrightarrow> limit_loop i len mixed = mixed"
  by (subst limit_loop.simps) simp

lemma limit_loop_length: "length (limit_loop i len mixed) = length mixed"
proof (induction "len - i" arbitrary: i mixed)
  case 0
  then show ?case by (simp add: limit_loop_done)
next
  case (Suc n)
  then have "i < len" "n = len - Suc i" by simp_all
  then show ?case using Suc.hyps(1) [of "Suc i"] by (simp add: limit_loop_step)
qed

lemma limit_loop_keep: "k < i \<Longrightarrow> limit_loop i len mixed ! k = mixed ! k"
proof (induction "len - i" arbitrary: i mixed)
  case 0
  then show ?case by (simp add: limit_loop_done)
next
  case (Suc n)
  then have "i < len" "n = len - Suc i" by simp_all
  then show ?case using Suc.hyps(1) [of "Suc i"] Suc.prems by (simp add: limit_loop_step)
qed

lemma limit_loop_nth:
  "i \<le> k \<Longrightarrow> k < len \<Longrightarrow> len \<le> length mixed \<Longrightarrow>
   limit_loop i len mixed ! k = soft_limit (mixed ! k)"
proof (induction "k - i" arbitrary: i mixed)
  case 0
  then have "i = k" by simp
  then show ?case using 0 by (simp add: limit_loop_step limit_loop_keep)
next
  case (Suc n)
  then have i: "i < len" and n: "n = k - Suc i" and k: "Suc i \<le> k" by simp_all
  let ?m = "mixed[i := soft_limit (mixed ! i)]"
  have "limit_loop i len mixed ! k = limit_loop (Suc i) len ?m ! k"
    using i by (simp only: limit_loop_step)
  also have "\<dots> = soft_limit (?m ! k)"
    using n k Suc.prems by (intro Suc.hyps(1)) simp_all
  also have "?m ! k = mixed ! k"
    using k by simp
  finally show ?case .
qed

text \<open>
  A finite binary32 sample times a weight of magnitude at most 1 is a finite number, and
  adding a finite number to a sample that is not \<open>NaN\<close> does not give \<open>NaN\<close>.
\<close>

lemma weighted_sample_finite:
  assumes "\<bar>s\<bar> < 2 ^ 128" "\<bar>w\<bar> \<le> 1"
  shows "\<exists>t. binary64 (s * w) = Num t"
proof -
  have "\<bar>s * w\<bar> \<le> \<bar>s\<bar> * 1"
    unfolding abs_mult using assms(2) by (intro mult_left_mono) simp_all
  with assms(1) have "\<bar>s * w\<bar> \<le> 2 ^ 128" by simp
  moreover have "(2 ^ 128 :: real) = 2 powi 128" by simp
  ultimately have "\<bar>s * w\<bar> \<le> 2 powi 128" by (simp only:)
  from to_format_Num(1) [OF this, of "- 1022" 53 1024] show ?thesis
    by (simp add: binary64_def)
qed

lemma plus64_not_NaN: "m \<noteq> NaN \<Longrightarrow> plus64 m (Num t) \<noteq> NaN"
  by (cases m) simp_all

lemma mix_layers_not_NaN:
  assumes "\<forall>layer \<in> set layers.
      len \<le> length (buffer layer) \<and> (\<forall>x \<in> set (buffer layer). \<bar>x\<bar> < 2 ^ 128)"
    and "k < len" "len \<le> length mixed" "mixed ! k \<noteq> NaN" "\<bar>w\<bar> \<le> 1"
  shows "foldl (\<lambda>mixed layer. mix_layer_loop 0 len layer (Num w) mixed) mixed layers ! k \<noteq> NaN"
  using assms
proof (induction layers arbitrary: mixed)
  case Nil
  then show ?case by simp
next
  case (Cons layer layers)
  let ?m = "mix_layer_loop 0 len layer (Num w) mixed"
  have l: "k < length (buffer layer)" "\<bar>buffer layer ! k\<bar> < 2 ^ 128"
    using Cons.prems(1,2) by auto
  obtain t where t: "binary64 (buffer layer ! k * w) = Num t"
    using weighted_sample_finite [OF l(2) Cons.prems(5)] by blast
  have "?m ! k = fround (plus64 (mixed ! k) (Num t))"
    using Cons.prems(2,3) l(1) by (simp add: mix_layer_loop_nth read_sample_def t)
  then have "?m ! k \<noteq> NaN"
    using Cons.prems(4) by (simp add: fround_not_NaN plus64_not_NaN)
  moreover have "len \<le> length ?m"
    using Cons.prems(3) by (simp add: mix_layer_loop_length)
  ultimately show ?case
    using Cons.IH [of ?m] Cons.prems by simp
qed

lemma mix_sum_length: "length (mix_sum base layers bl ll) = length base"
proof -
  have "length (foldl (\<lambda>mixed layer. mix_layer_loop 0 len layer w mixed) mixed ls) = length mixed"
    for len w mixed ls
    by (induction ls arbitrary: mixed) (simp_all add: mix_layer_loop_length)
  then show ?thesis
    by (simp add: mix_sum_def Let_def mix_base_loop_length)
qed

lemma mixAmbientLayers_length: "length (mixAmbientLayers base layers bl ll) = length base"
  by (simp add: mixAmbientLayers_def limit_loop_length mix_sum_length)

lemma mix_sum_not_NaN:
  assumes "\<forall>layer \<in> set layers.
      length baseNoise \<le> length (buffer layer) \<and> (\<forall>x \<in> set (buffer layer). \<bar>x\<bar> < 2 ^ 128)"
    and "i < length baseNoise" "0 \<le> layerLevel" "layerLevel \<le> 1"
  shows "mix_sum baseNoise layers baseLevel layerLevel ! i \<noteq> NaN"
proof (cases "layers = []")
  case True
  then show ?thesis
    using assms(2) by (simp add: mix_sum_def Let_def mix_base_loop_nth fround_not_NaN)
next
  case False
  then have L: "1 \<le> real (length layers)"
    by (cases layers) simp_all
  then have "layerLevel / real (length layers) \<le> layerLevel / 1"
    using assms(3) False by (intro divide_left_mono) simp_all
  moreover have "0 \<le> layerLevel / real (length layers)"
    using assms(3) by simp
  ultimately have "\<bar>layerLevel / real (length layers)\<bar> \<le> 1"
    using assms(4) by linarith
  moreover have "real (length layers) \<noteq> 0"
    using False by simp
  ultimately have q: "\<bar>layerLevel / real (length layers)\<bar> \<le> 1" "real (length layers) \<noteq> 0"
    by blast+
  define w where "w = round_to 53 (- 1022) (layerLevel / real (length layers))"
  have w: "binary64 (layerLevel / real (length layers)) = Num w" "\<bar>w\<bar> \<le> 1"
    using binary64_le_1 [OF q(1)] by (simp_all add: w_def)
  let ?m = "mix_base_loop 0 baseNoise baseLevel (replicate (length baseNoise) (Num 0))"
  have "?m ! i \<noteq> NaN"
    using assms(2) by (simp add: mix_base_loop_nth fround_not_NaN)
  moreover have "length baseNoise \<le> length ?m"
    by (simp add: mix_base_loop_length)
  ultimately show ?thesis
    using mix_layers_not_NaN [OF assms(1,2) _ _ w(2), of ?m] False
    by (simp add: mix_sum_def Let_def w(1))
qed

text \<open>The limiter of the code is the limiter of the specification on the stored sample.\<close>

lemma to_format_minus: "to_format p emin emax (- x) = num_neg (to_format p emin emax x)"
proof -
  have "(0::real) < 2 ^ emax" by simp
  then have "\<not> (2 ^ emax \<le> y \<and> 2 ^ emax \<le> - y)" for y :: real
    by linarith
  then show ?thesis
    by (auto simp add: to_format_def Let_def round_to_minus)
qed

lemma soft_limit_limited: "soft_limit m = limited m"
proof (cases m)
  case (Num x)
  show ?thesis
  proof (cases "0.95 < \<bar>x\<bar>")
    case True
    show ?thesis
    proof (cases "0 < x")
      case True
      then have "tanh_limit x = tanh x" using \<open>0.95 < \<bar>x\<bar>\<close> by (simp add: tanh_limit_def)
      then show ?thesis using True \<open>0.95 < \<bar>x\<bar>\<close> by (simp add: soft_limit_def Num)
    next
      case False
      then have "tanh_limit x = - tanh (- x)" using \<open>0.95 < \<bar>x\<bar>\<close> by (simp add: tanh_limit_def)
      moreover have "num_neg (binary64 (tanh (- x))) = binary64 (- tanh (- x))"
        by (simp only: binary64_def to_format_minus)
      ultimately show ?thesis using False \<open>0.95 < \<bar>x\<bar>\<close> by (simp add: soft_limit_def Num)
    qed
  next
    case False
    then show ?thesis by (simp add: soft_limit_def Num)
  qed
qed (simp_all add: soft_limit_def)

lemma tanh_limit_bound: "\<bar>tanh_limit x\<bar> \<le> 1"
proof (cases "0.95 < \<bar>x\<bar>")
  case True
  have "\<bar>sgn x * tanh \<bar>x\<bar>\<bar> = \<bar>tanh x\<bar>" using True by (simp add: abs_mult)
  also have "\<dots> \<le> 1" using tanh_real_lt_1 [of x] tanh_real_gt_neg1 [of x] by (simp add: abs_le_iff)
  finally show ?thesis using True by (simp add: tanh_limit_def)
next
  case False
  then show ?thesis by (simp add: tanh_limit_def)
qed

lemma limited_bound: "m \<noteq> NaN \<Longrightarrow> \<exists>y. limited m = Num y \<and> \<bar>y\<bar> \<le> 1"
proof (cases m)
  case (Num x)
  show ?thesis
  proof (cases "0.95 < \<bar>x\<bar>")
    case True
    define y where "y = round_to 53 (- 1022) (tanh_limit x)"
    have y: "binary64 (tanh_limit x) = Num y" "\<bar>y\<bar> \<le> 1"
      unfolding y_def using binary64_le_1 [OF tanh_limit_bound] by simp_all
    from binary32_le_1 [OF y(2)] show ?thesis
      using True by (simp add: Num y(1))
  next
    case False
    then show ?thesis by (simp add: Num)
  qed
qed simp_all

text \<open>
  C4, as amended. For every base buffer and \<open>baseLevel\<close>, every \<open>layerLevel\<close> in \<open>[0, 1]\<close> and
  every list of layers whose buffers are at least as long as the base buffer and hold
  finite binary32 samples: the output has the length of the base buffer; the pre-limit
  sample, which is the sum as accumulated in the \<open>Float32Array\<close>, is not \<open>NaN\<close>; the output
  sample is \<open>sign(x) * tanh(|x|)\<close>, computed in binary64 and stored as binary32, when the
  pre-limit sample \<open>x\<close> has a magnitude above 0.95 (1 or -1 for an infinite one) and \<open>x\<close>
  itself otherwise; and its magnitude is at most 1.
\<close>

theorem mixAmbientLayers_soft_limit:
  assumes "\<forall>layer \<in> set layers.
      length baseNoise \<le> length (buffer layer) \<and> (\<forall>x \<in> set (buffer layer). \<bar>x\<bar> < 2 ^ 128)"
    and "i < length baseNoise" "0 \<le> layerLevel" "layerLevel \<le> 1"
  shows "length (mixAmbientLayers baseNoise layers baseLevel layerLevel) = length baseNoise \<and>
         mix_sum baseNoise layers baseLevel layerLevel ! i \<noteq> NaN \<and>
         mixAmbientLayers baseNoise layers baseLevel layerLevel ! i =
           limited (mix_sum baseNoise layers baseLevel layerLevel ! i) \<and>
         (\<exists>y. mixAmbientLayers baseNoise layers baseLevel layerLevel ! i = Num y \<and> \<bar>y\<bar> \<le> 1)"
proof -
  let ?m = "mix_sum baseNoise layers baseLevel layerLevel"
  have n: "?m ! i \<noteq> NaN"
    using assms by (rule mix_sum_not_NaN)
  have "mixAmbientLayers baseNoise layers baseLevel layerLevel ! i = soft_limit (?m ! i)"
    unfolding mixAmbientLayers_def using assms(2) by (intro limit_loop_nth) (simp_all add: mix_sum_length)
  then have o: "mixAmbientLayers baseNoise layers baseLevel layerLevel ! i = limited (?m ! i)"
    by (simp only: soft_limit_limited)
  from limited_bound [OF n] o
  have "\<exists>y. mixAmbientLayers baseNoise layers baseLevel layerLevel ! i = Num y \<and> \<bar>y\<bar> \<le> 1"
    by simp
  with n o show ?thesis
    by (simp add: mixAmbientLayers_length)
qed

lemma binary64_halves: "binary64 (1 / 2) = Num (1 / 2)" "binary64 (3 / 2) = Num (3 / 2)"
  using binary64_dyadic [of 1 1] binary64_dyadic [of 3 1] by simp_all

lemma binary32_halves: "binary32 (1 / 2) = Num (1 / 2)" "binary32 (3 / 2) = Num (3 / 2)"
  using binary32_dyadic [of 1 1] binary32_dyadic [of 3 1] by simp_all

lemma mix_sum_example:
  "mix_sum [2] [\<lparr>name = ''rain'', buffer = [1], description = ''''\<rparr>] (1 / 2) (1 / 2) = [Num (3 / 2)]"
  by (simp add: mix_sum_def mix_base_loop_step mix_base_loop_done mix_layer_loop_step
      mix_layer_loop_done read_sample_def binary64_halves binary32_halves)

theorem mixAmbientLayers_soft_limit_witness:
  "length [2 :: real] \<le> length (buffer \<lparr>name = ''rain'', buffer = [1], description = ''''\<rparr>) \<and>
   \<bar>1 :: real\<bar> < 2 ^ 128 \<and> (0::nat) < length [2 :: real] \<and> (0 :: real) \<le> 1 / 2 \<and>
   (1 / 2 :: real) \<le> 1 \<and>
   mix_sum [2] [\<lparr>name = ''rain'', buffer = [1], description = ''''\<rparr>] (1 / 2) (1 / 2) ! 0
     = Num (3 / 2) \<and>
   mixAmbientLayers [2] [\<lparr>name = ''rain'', buffer = [1], description = ''''\<rparr>] (1 / 2) (1 / 2) ! 0
     = fround (binary64 (tanh (3 / 2))) \<and>
   (\<exists>y. mixAmbientLayers [2] [\<lparr>name = ''rain'', buffer = [1], description = ''''\<rparr>] (1 / 2) (1 / 2) ! 0
          = Num y \<and> \<bar>y\<bar> \<le> 1)"
proof -
  let ?layers = "[\<lparr>name = ''rain'', buffer = [1 :: real], description = ''''\<rparr>]"
  have h: "\<forall>layer \<in> set ?layers.
      length [2 :: real] \<le> length (buffer layer) \<and> (\<forall>x \<in> set (buffer layer). \<bar>x\<bar> < 2 ^ 128)"
    "(0::nat) < length [2 :: real]" "(0 :: real) \<le> 1 / 2" "(1 / 2 :: real) \<le> 1"
    by simp_all
  have m: "mix_sum [2] ?layers (1 / 2) (1 / 2) ! 0 = Num (3 / 2)"
    by (simp add: mix_sum_example)
  from mixAmbientLayers_soft_limit [OF h, of "1 / 2"]
  have o: "mixAmbientLayers [2] ?layers (1 / 2) (1 / 2) ! 0 =
      limited (mix_sum [2] ?layers (1 / 2) (1 / 2) ! 0)"
    and b: "\<exists>y. mixAmbientLayers [2] ?layers (1 / 2) (1 / 2) ! 0 = Num y \<and> \<bar>y\<bar> \<le> 1"
    by blast+
  have "limited (Num (3 / 2)) = fround (binary64 (tanh (3 / 2)))"
    by (simp add: tanh_limit_def)
  with o have "mixAmbientLayers [2] ?layers (1 / 2) (1 / 2) ! 0 = fround (binary64 (tanh (3 / 2)))"
    by (simp only: m)
  with m b show ?thesis by simp
qed

text \<open>
  C4 as stated fails for a layer buffer shorter than the base buffer: the read past its end
  is \<open>undefined\<close>, the sum becomes \<open>NaN\<close>, the limiter's comparison is false, and the
  emitted sample is \<open>NaN\<close>, whose magnitude is not at most 1.
\<close>

theorem mixAmbientLayers_short_layer_counterexample:
  "mixAmbientLayers [2] [\<lparr>name = ''rain'', buffer = [], description = ''''\<rparr>] 1 1 = [NaN]"
  by (simp add: mixAmbientLayers_def mix_sum_def mix_base_loop_step mix_base_loop_done
      mix_layer_loop_step mix_layer_loop_done limit_loop_step limit_loop_done read_sample_def
      soft_limit_def)

text \<open>
  The limiter sees the sample as stored. The base sample 1 at level 0.95000001 gives the
  binary64 product \<open>8556839382075935 / 2^53\<close>, which is above 0.95, but it is stored as
  \<open>15938355 / 2^24\<close>, which is below: the sample is not limited.
\<close>

lemma mixAmbientLayers_stored_sum:
  "mixAmbientLayers [1] [] (95000001 / 100000000) layerLevel = [Num (15938355 / 16777216)]"
proof -
  let ?x = "95000001 / 100000000 :: real"
  let ?y = "8556839382075935 / 9007199254740992 :: real"
  have "round_to 53 (- 1022) ?x = ?y"
    by (subst round_to_eval [of "- 1"]) (simp_all add: round_even_def power_int_minus)
  then have x: "binary64 ?x = Num ?y"
    by (simp add: binary64_def to_format_def)
  have "round_to 24 (- 126) ?y = 15938355 / 16777216"
    by (subst round_to_eval [of "- 1"]) (simp_all add: round_even_def power_int_minus)
  then have y: "binary32 ?y = Num (15938355 / 16777216)"
    by (simp add: binary32_def to_format_def)
  show ?thesis
    by (simp add: mixAmbientLayers_def mix_sum_def mix_base_loop_step mix_base_loop_done
        limit_loop_step limit_loop_done soft_limit_def x y)
qed

section \<open>Properties of the layer synthesizers\<close>

lemma rain_droplet_loop_length:
  "length (fst (rain_droplet_loop j i ds len sr di fr opts buf rng)) = length buf"
proof (induction "len - (i + j)" arbitrary: j buf rng rule: less_induct)
  case less
  show ?case
  proof (cases "int j < ds \<and> i + j < len")
    case True
    then have "len - (i + Suc j) < len - (i + j)" by linarith
    from less [OF this] True show ?thesis
      by (subst rain_droplet_loop.simps) (simp add: Let_def case_prod_beta)
  next
    case False
    then show ?thesis by (subst rain_droplet_loop.simps) auto
  qed
qed

lemma rain_loop_unfold:
  "i < len \<Longrightarrow>
   \<exists>buf' rng'. rain_loop i len base sr opts buf rng = rain_loop (Suc i) len base sr opts buf' rng'
      \<and> length buf' = length buf"
  apply (subst rain_loop.simps)
  apply (simp add: Let_def case_prod_beta)
  apply (intro conjI impI exI)
     apply (rule refl)
    apply (rule rain_droplet_loop_length)
   apply (rule refl)
  apply (rule refl)
  done

lemma rain_loop_done: "\<not> i < len \<Longrightarrow> rain_loop i len base sr opts buf rng = buf"
  by (subst rain_loop.simps) simp

lemma rain_loop_length: "length (rain_loop i len base sr opts buf rng) = length buf"
proof (induction "len - i" arbitrary: i buf rng)
  case 0
  then show ?case by (simp add: rain_loop_done)
next
  case (Suc n)
  then have "i < len" by simp
  then obtain buf' rng' where
    "rain_loop i len base sr opts buf rng = rain_loop (Suc i) len base sr opts buf' rng'"
    "length buf' = length buf"
    using rain_loop_unfold by blast
  moreover have "n = len - Suc i" using Suc.hyps(2) by simp
  ultimately show ?case using Suc.hyps(1) by simp
qed

lemma generateRainLayer_length:
  "length (buffer (generateRainLayer e base sr opts)) = length base"
  by (simp add: generateRainLayer_def Let_def rain_loop_length)

lemma water_bubble_loop_length:
  "length (water_bubble_loop j i bs len sr fr opts buf) = length buf"
proof (induction "len - (i + j)" arbitrary: j buf rule: less_induct)
  case less
  show ?case
  proof (cases "int j < bs \<and> i + j < len")
    case True
    then have "len - (i + Suc j) < len - (i + j)" by linarith
    from less [OF this] True show ?thesis
      by (subst water_bubble_loop.simps) (simp add: Let_def)
  next
    case False
    then show ?thesis by (subst water_bubble_loop.simps) auto
  qed
qed

lemma water_loop_unfold:
  "i < len \<Longrightarrow>
   \<exists>buf' rng' f'. water_loop i len base sr opts buf rng f =
      water_loop (Suc i) len base sr opts buf' rng' f' \<and> length buf' = length buf"
  apply (subst water_loop.simps)
  apply (simp add: Let_def case_prod_beta)
  apply (intro conjI impI exI)
     apply (rule refl)
    apply (simp add: water_bubble_loop_length)
   apply (rule refl)
  apply simp
  done

lemma water_loop_done: "\<not> i < len \<Longrightarrow> water_loop i len base sr opts buf rng f = buf"
  by (subst water_loop.simps) simp

lemma water_loop_length: "length (water_loop i len base sr opts buf rng f) = length buf"
proof (induction "len - i" arbitrary: i buf rng f)
  case 0
  then show ?case by (simp add: water_loop_done)
next
  case (Suc n)
  then have "i < len" by simp
  then obtain buf' rng' f' where
    "water_loop i len base sr opts buf rng f = water_loop (Suc i) len base sr opts buf' rng' f'"
    "length buf' = length buf"
    using water_loop_unfold by blast
  moreover have "n = len - Suc i" using Suc.hyps(2) by simp
  ultimately show ?case using Suc.hyps(1) by simp
qed

lemma generateWaterLayer_length:
  "length (buffer (generateWaterLayer e base sr opts)) = length base"
  by (simp add: generateWaterLayer_def Let_def water_loop_length)

lemma bird_call_loop_length:
  "length (bird_call_loop j i cs len sr fr md cl opts buf) = length buf"
proof (induction "len - (i + j)" arbitrary: j buf rule: less_induct)
  case less
  show ?case
  proof (cases "int j < cs \<and> i + j < len")
    case True
    then have "len - (i + Suc j) < len - (i + j)" by linarith
    from less [OF this] True show ?thesis
      by (subst bird_call_loop.simps) (simp add: Let_def)
  next
    case False
    then show ?thesis by (subst bird_call_loop.simps) auto
  qed
qed

text \<open>With a positive sample rate one pass never moves the index backwards.\<close>

lemma bird_body_progress:
  assumes "0 < sr" and "bird_body i len base sr opts buf rng = (i', buf', rng')"
  shows "i \<le> i' \<and> length buf' = length buf"
proof -
  have "0 \<le> \<lfloor>0.3 * sr\<rfloor>" "0 \<le> \<lfloor>0.15 * sr\<rfloor>" "0 \<le> \<lfloor>0.1 * sr\<rfloor>"
    using assms(1) by simp_all
  then show ?thesis
    using assms(2)
    by (auto simp add: bird_body_def Let_def case_prod_beta bird_call_loop_length
        split: if_splits)
qed

lemma bird_loop_returns:
  assumes "0 < sr"
  shows "\<exists>buf'. bird_loop i len base sr opts buf rng = Some buf' \<and> length buf' = length buf"
proof (induction "nat (int len - i)" arbitrary: i buf rng rule: less_induct)
  case less
  show ?case
  proof (cases "i < int len")
    case True
    obtain i' buf' rng' where b: "bird_body i len base sr opts buf rng = (i', buf', rng')"
      by (cases "bird_body i len base sr opts buf rng") auto
    from bird_body_progress [OF assms b] have p: "i \<le> i'" "length buf' = length buf"
      by simp_all
    then have "nat (int len - (i' + 1)) < nat (int len - i)"
      using True by linarith
    from less [OF this, of buf' rng'] p(2) True b show ?thesis
      by (subst bird_loop.simps) simp
  next
    case False
    then show ?thesis by (subst bird_loop.simps) simp
  qed
qed

lemma generateBirdLayer_length:
  assumes "0 < sr"
  shows "\<exists>res. generateBirdLayer e base sr opts = Some res \<and> length (buffer res) = length base"
proof -
  let ?rng = "fst (SeededRandom_random (SeededRandom_new e (seed opts)))"
  obtain buf' where
    "bird_loop 0 (length base) base sr opts (replicate (length base) 0) ?rng = Some buf'"
    "length buf' = length base"
    using bird_loop_returns [OF assms, of 0 "length base" base opts "replicate (length base) 0" ?rng]
    by auto
  then show ?thesis
    by (simp add: generateBirdLayer_def Let_def case_prod_beta)
qed

text \<open>
  With a negative sample rate and a negative intensity a call is triggered at every pass
  and \<open>callSamples\<close> is -1, so \<open>i += callSamples; i++\<close> leaves the index where it was.
\<close>

lemma bird_body_backwards:
  assumes "intensity opts = - 1" "variation opts = 0"
  shows "fst (bird_body 0 1 [0] (- 1) opts buf rng) = - 1"
proof -
  have r: "snd (SeededRandom_random rng) < 3 / 2"
    using SeededRandom_random_range [of rng] by simp
  have f: "\<lfloor>- (3 / 10 :: real)\<rfloor> = - 1" "\<lfloor>- (15 / 100 :: real)\<rfloor> = - 1"
    "\<lfloor>- (1 / 10 :: real)\<rfloor> = - 1"
    by (simp_all add: floor_eq_iff)
  show ?thesis
    using r f by (simp add: bird_body_def Let_def case_prod_beta assms num_div_def)
qed

lemma bird_loop_diverges:
  assumes "intensity opts = - 1" "variation opts = 0"
  shows "bird_loop 0 1 [0] (- 1) opts buf rng = None"
proof -
  let ?P = "\<lambda>(i :: int) (len :: nat) (base :: real list) (sr :: real) (os :: LayerOptions)
      (b :: real list) (g :: int) (y :: real list).
      \<not> (i = 0 \<and> len = 1 \<and> base = [0] \<and> sr = - 1 \<and> os = opts)"
  have main: "?P i len base sr os b g y"
    if "bird_loop i len base sr os b g = Some y" for i len base sr os b g y
  proof (rule bird_loop.raw_induct [where P = ?P, OF _ that])
    fix bird_loop' i len base sr os b g y
    assume IH: "\<And>i len base sr os b g y.
        bird_loop' i len base sr os b g = Some y \<Longrightarrow> ?P i len base sr os b g y"
      and step: "(if i < int len
          then case bird_body i len base sr os b g of
               (i', buf', rng') \<Rightarrow> bird_loop' (i' + 1) len base sr os buf' rng'
          else Some b) = Some y"
    show "?P i len base sr os b g y"
    proof
      assume a: "i = 0 \<and> len = 1 \<and> base = [0] \<and> sr = - 1 \<and> os = opts"
      obtain i' b' g' where body: "bird_body 0 1 [0] (- 1) opts b g = (i', b', g')"
        by (cases "bird_body 0 1 [0] (- 1) opts b g") auto
      then have "i' = - 1"
        using bird_body_backwards [OF assms, of b g] by simp
      with step a body have "bird_loop' 0 1 [0] (- 1) opts b' g' = Some y"
        by simp
      from IH [OF this] show False by simp
    qed
  qed
  show ?thesis
  proof (cases "bird_loop 0 1 [0] (- 1) opts buf rng")
    case None
    then show ?thesis .
  next
    case (Some y)
    from main [OF this] show ?thesis by simp
  qed
qed

lemma generateBirdLayer_diverges:
  "generateBirdLayer e [0] (- 1) \<lparr>intensity = - 1, variation = 0, seed = sd\<rparr> = None"
proof -
  have "bird_loop 0 (length [0 :: real]) [0] (- 1) \<lparr>intensity = - 1, variation = 0, seed = sd\<rparr>
      buf rng = None" for buf rng
    using bird_loop_diverges [of "\<lparr>intensity = - 1, variation = 0, seed = sd\<rparr>" buf rng]
    by simp
  then show ?thesis
    by (simp only: generateBirdLayer_def Let_def case_prod_beta option.case)
qed

lemma generateNoise_length:
  assumes "0 \<le> d * r" "binary64 (d * r) = Num p" "\<lfloor>p\<rfloor> \<le> 2 ^ 53 - 1" "\<lfloor>p\<rfloor> \<le> int limit"
    and "ty \<in> {''white'', ''pink'', ''brown''}"
  shows "\<exists>buf. generateNoise limit e ty d r sd = Inr buf \<and> int (length buf) = \<lfloor>p\<rfloor>"
proof -
  have p: "0 \<le> p"
    using assms(2) assms(1) unfolding binary64_def by (rule to_format_NumD)
  show ?thesis
    using assms(5) p
    by (auto simp add: generateNoise_allocated [OF assms(2) p assms(3,4)] white_loop_length
        brown_loop_length pink_loop_length)
qed

text \<open>
  C5, as amended. For every duration \<open>d > 0\<close> and sample rate \<open>r > 0\<close> whose binary64
  product \<open>p\<close> is finite with \<open>floor(p)\<close> no more than the engine allocates (at most
  \<open>2^53 - 1\<close>), \<open>generateNoise\<close> returns exactly \<open>floor(p)\<close> samples for each of the three
  noise types. \<open>generateRainLayer\<close>, \<open>generateBirdLayer\<close> and \<open>generateWaterLayer\<close> at a
  sample rate \<open>r > 0\<close> return (the bird loop ends) a buffer of the length of the base
  buffer, and \<open>mixAmbientLayers\<close> returns a buffer of the length of the base buffer.
\<close>

theorem length_invariant:
  assumes "0 < d" and "0 < r"
    and "binary64 (d * r) = Num p" "\<lfloor>p\<rfloor> \<le> 2 ^ 53 - 1" "\<lfloor>p\<rfloor> \<le> int limit"
  shows "(ty \<in> {''white'', ''pink'', ''brown''} \<longrightarrow>
            (\<exists>buf. generateNoise limit e ty d r sd = Inr buf \<and> int (length buf) = \<lfloor>p\<rfloor>)) \<and>
         length (buffer (generateRainLayer e base r opts)) = length base \<and>
         (\<exists>res. generateBirdLayer e base r opts = Some res \<and> length (buffer res) = length base) \<and>
         length (buffer (generateWaterLayer e base r opts)) = length base \<and>
         length (mixAmbientLayers base layers baseLevel layerLevel) = length base"
proof -
  have "0 \<le> d * r" using assms(1,2) by simp
  then show ?thesis
    using generateNoise_length [OF _ assms(3-5), of ty e sd]
      generateBirdLayer_length [OF assms(2), of e base opts]
    by (simp only: generateRainLayer_length generateWaterLayer_length mixAmbientLayers_length)
      blast
qed

theorem length_invariant_witness:
  "(0::real) < 1 \<and> (0::real) < 8 \<and> binary64 (1 * 8) = Num 8 \<and> \<lfloor>8 :: real\<rfloor> \<le> 2 ^ 53 - 1 \<and>
   \<lfloor>8 :: real\<rfloor> \<le> int 4294967295 \<and> ''white'' \<in> {''white'', ''pink'', ''brown''} \<and>
   (\<exists>buf. generateNoise 4294967295 0 ''white'' 1 8 (Some 1) = Inr buf \<and> int (length buf) = 8) \<and>
   length (buffer (generateRainLayer 0 [0, 0] 8 \<lparr>intensity = 1 / 2, variation = 1 / 2, seed = Some 1\<rparr>)) = length [0, 0 :: real] \<and>
   (\<exists>res. generateBirdLayer 0 [0, 0] 8 \<lparr>intensity = 1 / 2, variation = 1 / 2, seed = Some 1\<rparr> = Some res
      \<and> length (buffer res) = length [0, 0 :: real]) \<and>
   length (buffer (generateWaterLayer 0 [0, 0] 8 \<lparr>intensity = 1 / 2, variation = 1 / 2, seed = Some 1\<rparr>)) = length [0, 0 :: real] \<and>
   length (mixAmbientLayers [0, 0] [] (7 / 10) (3 / 10)) = length [0, 0 :: real]"
  using length_invariant [of 1 8 8 4294967295 "''white''" 0 "Some 1" "[0, 0]"
      "\<lparr>intensity = 1 / 2, variation = 1 / 2, seed = Some 1\<rparr>" "[]" "7 / 10" "3 / 10"]
  by simp

text \<open>
  C5 as stated fails: \<open>d > 0\<close> and \<open>r > 0\<close> do not make the allocation succeed. For
  \<open>d = 2^53\<close> and \<open>r = 1\<close> the length \<open>2^53\<close> is beyond what \<open>ToIndex\<close> accepts, whatever the
  engine allocates, and \<open>generateNoise\<close> throws a \<open>RangeError\<close> instead of returning
  \<open>floor(d * r)\<close> samples.
\<close>

theorem generateNoise_length_counterexample:
  "(0 :: real) < 9007199254740992 \<and> (0 :: real) < 1 \<and>
   generateNoise 9007199254740991 0 ''white'' 9007199254740992 1 (Some 1) = Inl RangeError"
  using generateNoise_refused [of 9007199254740992 1 9007199254740992 9007199254740991 0
      "''white''" "Some 1"] binary64_2_53
  by simp

text \<open>
  The number of samples is the floor of the binary64 product, which need not be the floor
  of the exact product: for the binary64 number nearest to 0.3 and the rate 10 the
  exact product is below 3 and the buffer has 3 samples.
\<close>

lemma generateNoise_rounded_length:
  "(\<exists>buf. generateNoise 4294967295 e ''white'' (5404319552844595 / 2 ^ 54) 10 sd = Inr buf \<and>
      length buf = 3) \<and>
   \<lfloor>5404319552844595 / 2 ^ 54 * 10 :: real\<rfloor> = 2"
proof -
  have "binary64 (5404319552844595 / 2 ^ 54 * 10) = Num 3"
    using binary64_product_rounds_up by blast
  from generateNoise_length [OF _ this, of 4294967295 "''white''" e sd]
  show ?thesis by simp
qed

end
